theory Spec2Isabelle
  imports Main "HOL-Library.Multiset"
begin

section \<open>Data model of \<^verbatim>\<open>GenericTree.h\<close>\<close>

text \<open>
  A \<^verbatim>\<open>TreeNode*\<close> is an address or the null pointer. Nodes live on the free store, a
  partial map from addresses to node objects that is shared by every tree of the program:
  \<^verbatim>\<open>new\<close> adds an address, \<^verbatim>\<open>delete\<close> removes one. The element type \<^verbatim>\<open>T\<close> is the type
  variable \<open>'a\<close>; its \<^verbatim>\<open>operator<<\<close> is the parameter \<open>shw\<close> of the functions that print.
\<close>

type_synonym ptr = "nat option"

record 'a TreeNode =
  parentPtr :: ptr
  childrenPtrs :: "ptr list"
  data :: 'a

type_synonym 'a store = "nat \<Rightarrow> 'a TreeNode option"

record GenericTree =
  showDebugMessages :: bool
  rootNodePtr :: ptr

text \<open>What a member function can change besides its own tree object: the free store and
  the text written to \<^verbatim>\<open>std::cerr\<close>.\<close>

record 'a machine =
  heap :: "'a store"
  cerr :: string

text \<open>
  A call returns, or throws \<^verbatim>\<open>std::runtime_error\<close> with a message (the state at the throw is
  kept, the code rolls nothing back), or has undefined behaviour: it reads through, or
  deletes, a pointer to a node that is not on the free store. A loop that runs forever is the
  value \<open>None\<close> of the enclosing \<open>option\<close>.
\<close>

datatype 'r outcome = Ok 'r | Throw string 'r | UB

datatype 'r deref = Val 'r | Dangling

definition endl :: string where
  "endl = [CHR 0x0A]"

definition AlreadyInitializedError :: string where
  "AlreadyInitializedError = ''Tried to createRoot when root already exists''"

definition CrossTreeError :: string where
  "CrossTreeError = ''Tried to delete a node from a different tree''"

definition CorruptionError :: string where
  "CorruptionError = ''Target node to delete was not listed as a child of its parent''"

definition CompressionError :: string where
  "CompressionError = ''Error: Compression exploration queued a null pointer''"

definition InternalInvariantError :: string where
  "InternalInvariantError = ''clear() detected that deleteSubtree() had not reset rootNodePtr''"

section \<open>Construction\<close>

text \<open>\<^verbatim>\<open>TreeNode(const T& dataArg)\<close>: no parent, no children.\<close>

definition TreeNode_new :: "'a \<Rightarrow> 'a TreeNode" where
  "TreeNode_new dataArg = \<lparr>parentPtr = None, childrenPtrs = [], data = dataArg\<rparr>"

text \<open>\<^verbatim>\<open>GenericTree()\<close>: debugging off, no root.\<close>

definition GenericTree_new :: "GenericTree" where
  "GenericTree_new = \<lparr>showDebugMessages = False, rootNodePtr = None\<rparr>"

definition getRootPtr :: "GenericTree \<Rightarrow> ptr" where
  "getRootPtr T = rootNodePtr T"

text \<open>
  \<^verbatim>\<open>createRoot\<close> and \<^verbatim>\<open>addChild\<close> call \<^verbatim>\<open>new\<close>; the address the allocator hands out is the
  argument \<open>fresh\<close>, which is also the pointer the call returns.
\<close>

definition createRoot ::
  "'a \<Rightarrow> nat \<Rightarrow> GenericTree \<times> 'a machine \<Rightarrow> (GenericTree \<times> 'a machine) outcome" where
  "createRoot rootData fresh w =
     (case w of (T, s) \<Rightarrow>
        if rootNodePtr T \<noteq> None
        then Throw AlreadyInitializedError
               (T, s\<lparr>cerr := cerr s @ AlreadyInitializedError @ endl\<rparr>)
        else Ok (T\<lparr>rootNodePtr := Some fresh\<rparr>,
                 s\<lparr>heap := (heap s)(fresh \<mapsto> TreeNode_new rootData)\<rparr>))"

definition addChild :: "nat \<Rightarrow> 'a \<Rightarrow> nat \<Rightarrow> 'a store \<Rightarrow> 'a store deref" where
  "addChild this childData fresh h =
     (case h this of
        None \<Rightarrow> Dangling
      | Some n \<Rightarrow>
          Val (h(fresh \<mapsto> (TreeNode_new childData)\<lparr>parentPtr := Some this\<rparr>,
                 this \<mapsto> n\<lparr>childrenPtrs := childrenPtrs n @ [Some fresh]\<rparr>)))"

section \<open>Subtree deletion\<close>

text \<open>The walk from the target along \<^verbatim>\<open>parentPtr\<close> to the node that has no parent.\<close>

partial_function (option) walkBack :: "'a store \<Rightarrow> nat \<Rightarrow> nat deref option" where
  "walkBack h walk =
     (case h walk of
        None \<Rightarrow> Some Dangling
      | Some n \<Rightarrow>
          (case parentPtr n of
             None \<Rightarrow> Some (Val walk)
           | Some p \<Rightarrow> walkBack h p))"

text \<open>
  The search through the parent's \<^verbatim>\<open>childrenPtrs\<close>: the first entry equal to the target is
  overwritten with the null pointer and the loop breaks. The result is the vector after the
  loop and the flag \<^verbatim>\<open>targetWasFound\<close>.
\<close>

fun detach :: "nat \<Rightarrow> ptr list \<Rightarrow> ptr list \<times> bool" where
  "detach targetRoot [] = ([], False)"
| "detach targetRoot (currentChildPtr # rest) =
     (if currentChildPtr = Some targetRoot then (None # rest, True)
      else (case detach targetRoot rest of (rest', found) \<Rightarrow> (currentChildPtr # rest', found)))"

text \<open>
  The exploration loop. Both stacks are lists with the top at the head; pushing the
  children from first to last leaves the last child on top.
\<close>

partial_function (option) explore ::
  "('a \<Rightarrow> string) \<Rightarrow> bool \<Rightarrow> 'a store \<Rightarrow> ptr list \<Rightarrow> ptr list \<Rightarrow> string
     \<Rightarrow> (ptr list \<times> string) deref option" where
  "explore shw dbg h nodesToExplore nodesToDelete err =
     (case nodesToExplore of
        [] \<Rightarrow> Some (Val (nodesToDelete, err))
      | curNode # rest \<Rightarrow>
          (case curNode of
             None \<Rightarrow>
               explore shw dbg h rest nodesToDelete
                 (if dbg then err @ ''Exploring node: '' @ ''[null]'' @ endl else err)
           | Some a \<Rightarrow>
               (case h a of
                  None \<Rightarrow> Some Dangling
                | Some n \<Rightarrow>
                    explore shw dbg h (rev (childrenPtrs n) @ rest) (Some a # nodesToDelete)
                      (if dbg then err @ ''Exploring node: '' @ shw (data n) @ endl else err))))"

text \<open>The release loop: pops the delete stack and deletes each node.\<close>

fun deleteLoop ::
  "('a \<Rightarrow> string) \<Rightarrow> bool \<Rightarrow> ptr list \<Rightarrow> 'a store \<Rightarrow> string \<Rightarrow> ('a store \<times> string) deref" where
  "deleteLoop shw dbg [] h err = Val (h, err)"
| "deleteLoop shw dbg (None # rest) h err =
     deleteLoop shw dbg rest h
       (if dbg then err @ ''Deleting node: '' @ ''[null]'' @ endl else err)"
| "deleteLoop shw dbg (Some a # rest) h err =
     (case h a of
        None \<Rightarrow> Dangling
      | Some n \<Rightarrow>
          deleteLoop shw dbg rest (h(a := None))
            (if dbg then err @ ''Deleting node: '' @ shw (data n) @ endl else err))"

text \<open>Lines 210 to 293: enumerate, release, and reset the root pointer if the root went.\<close>

definition release ::
  "('a \<Rightarrow> string) \<Rightarrow> GenericTree \<Rightarrow> nat \<Rightarrow> bool \<Rightarrow> 'a machine
     \<Rightarrow> (GenericTree \<times> 'a machine) outcome option" where
  "release shw T targetRoot targetingWholeTreeRoot s =
     (case explore shw (showDebugMessages T) (heap s) [Some targetRoot] [] (cerr s) of
        None \<Rightarrow> None
      | Some Dangling \<Rightarrow> Some UB
      | Some (Val (nodesToDelete, err1)) \<Rightarrow>
          (case deleteLoop shw (showDebugMessages T) nodesToDelete (heap s) err1 of
             Dangling \<Rightarrow> Some UB
           | Val (h2, err2) \<Rightarrow>
               Some (Ok ((if targetingWholeTreeRoot then T\<lparr>rootNodePtr := None\<rparr> else T),
                         s\<lparr>heap := h2, cerr := err2\<rparr>))))"

text \<open>Lines 179 to 207: the target's slot in its parent becomes the null pointer; a target
  that its parent does not list is reported on \<^verbatim>\<open>std::cerr\<close> and thrown.\<close>

definition detachFromParent :: "nat \<Rightarrow> 'a machine \<Rightarrow> 'a machine outcome" where
  "detachFromParent targetRoot s =
     (case heap s targetRoot of
        None \<Rightarrow> UB
      | Some tn \<Rightarrow>
          (case parentPtr tn of
             None \<Rightarrow> Ok s
           | Some p \<Rightarrow>
               (case heap s p of
                  None \<Rightarrow> UB
                | Some pn \<Rightarrow>
                    (case detach targetRoot (childrenPtrs pn) of
                       (cs', targetWasFound) \<Rightarrow>
                         if \<not> targetWasFound
                         then Throw CorruptionError
                                (s\<lparr>heap := (heap s)(p \<mapsto> pn\<lparr>childrenPtrs := cs'\<rparr>),
                                   cerr := cerr s @ CorruptionError @ endl\<rparr>)
                         else Ok (s\<lparr>heap := (heap s)(p \<mapsto> pn\<lparr>childrenPtrs := cs'\<rparr>)\<rparr>)))))"

definition deleteSubtree ::
  "('a \<Rightarrow> string) \<Rightarrow> GenericTree \<times> 'a machine \<Rightarrow> ptr
     \<Rightarrow> (GenericTree \<times> 'a machine) outcome option" where
  "deleteSubtree shw w targetRoot =
     (case w of (T, s) \<Rightarrow>
      (case targetRoot of
         None \<Rightarrow> Some (Ok (T, s))
       | Some t \<Rightarrow>
           (case walkBack (heap s) t of
              None \<Rightarrow> None
            | Some Dangling \<Rightarrow> Some UB
            | Some (Val walk) \<Rightarrow>
                if Some walk \<noteq> rootNodePtr T then Some (Throw CrossTreeError (T, s))
                else
                  (case detachFromParent t s of
                     UB \<Rightarrow> Some UB
                   | Throw m s' \<Rightarrow> Some (Throw m (T, s'))
                   | Ok s' \<Rightarrow> release shw T t (rootNodePtr T = Some t) s'))))"

text \<open>\<^verbatim>\<open>clear\<close>, which the destructor calls and nothing else.\<close>

definition clear ::
  "('a \<Rightarrow> string) \<Rightarrow> GenericTree \<times> 'a machine
     \<Rightarrow> (GenericTree \<times> 'a machine) outcome option" where
  "clear shw w =
     (case deleteSubtree shw w (rootNodePtr (fst w)) of
        None \<Rightarrow> None
      | Some UB \<Rightarrow> Some UB
      | Some (Throw m w') \<Rightarrow> Some (Throw m w')
      | Some (Ok w') \<Rightarrow>
          if rootNodePtr (fst w') \<noteq> None then Some (Throw InternalInvariantError w')
          else Some (Ok w'))"

section \<open>Compaction\<close>

text \<open>The loop over the children of the front node: the non-null ones go, in order, to the
  back of the new vector and to the back of the queue.\<close>

fun keepChildren :: "ptr list \<Rightarrow> ptr list \<Rightarrow> ptr list \<Rightarrow> ptr list \<times> ptr list" where
  "keepChildren [] compressedChildrenPtrs nodesToExplore =
     (compressedChildrenPtrs, nodesToExplore)"
| "keepChildren (childPtr # rest) compressedChildrenPtrs nodesToExplore =
     (if childPtr \<noteq> None
      then keepChildren rest (compressedChildrenPtrs @ [childPtr]) (nodesToExplore @ [childPtr])
      else keepChildren rest compressedChildrenPtrs nodesToExplore)"

text \<open>The queue is a list with the front at the head.\<close>

partial_function (option) compressLoop :: "'a store \<Rightarrow> ptr list \<Rightarrow> 'a store outcome option" where
  "compressLoop h nodesToExplore =
     (case nodesToExplore of
        [] \<Rightarrow> Some (Ok h)
      | frontNode # rest \<Rightarrow>
          (case frontNode of
             None \<Rightarrow> Some (Throw CompressionError h)
           | Some a \<Rightarrow>
               (case h a of
                  None \<Rightarrow> Some UB
                | Some n \<Rightarrow>
                    (case keepChildren (childrenPtrs n) [] rest of
                       (compressedChildrenPtrs, queue) \<Rightarrow>
                         compressLoop (h(a \<mapsto> n\<lparr>childrenPtrs := compressedChildrenPtrs\<rparr>))
                           queue))))"

definition compress :: "GenericTree \<Rightarrow> 'a store \<Rightarrow> 'a store outcome option" where
  "compress T h =
     (case rootNodePtr T of
        None \<Rightarrow> Some (Ok h)
      | Some r \<Rightarrow> compressLoop h [Some r])"

section \<open>Rendering\<close>

text \<open>\<^verbatim>\<open>os << curDepth\<close> for an \<^verbatim>\<open>int\<close>, in decimal. The depth is an unbounded integer here;
  the 32-bit counter of the source cannot overflow before the tree has more than \<open>2^31\<close> levels.\<close>

fun showNat :: "nat \<Rightarrow> string" where
  "showNat n =
     (if n < 10 then [''0123456789'' ! n]
      else showNat (n div 10) @ [''0123456789'' ! (n mod 10)])"

definition showInt :: "int \<Rightarrow> string" where
  "showInt i = (if i < 0 then ''-'' @ showNat (nat (- i)) else showNat (nat i))"

definition LAST_ROW :: int where
  "LAST_ROW = 2"

text \<open>One pass over the margin flags, for one value of \<^verbatim>\<open>row\<close>.\<close>

fun marginRow :: "int \<Rightarrow> bool list \<Rightarrow> string" where
  "marginRow row [] = []"
| "marginRow row (showStem # rest) =
     (let stemSymbol = (if showStem then ''|'' else '' '');
          isLastCol = (rest = [])
      in (if isLastCol then
            (if LAST_ROW = row then stemSymbol @ ''_ ''
             else if showStem then stemSymbol @ endl
             else endl)
          else stemSymbol @ ''  '')
         @ marginRow row rest)"

text \<open>The loop over \<^verbatim>\<open>row\<close> from 1 to \<^verbatim>\<open>LAST_ROW\<close>, which is the constant 2.\<close>

definition marginRows :: "bool list \<Rightarrow> string" where
  "marginRows curMargin = marginRow 1 curMargin @ marginRow 2 curMargin"

text \<open>
  The four stacks of \<^verbatim>\<open>Print\<close> are pushed and popped together, so they are one stack of
  quadruples here: node, depth, current margin, trailing margin. The children are pushed
  from the last to the first; \<open>isRightmost\<close> is the test \<^verbatim>\<open>rbegin() == it\<close>.
\<close>

type_synonym frame = "ptr \<times> int \<times> bool list \<times> bool list"

fun pushChildren :: "ptr list \<Rightarrow> bool \<Rightarrow> int \<Rightarrow> bool list \<Rightarrow> frame list \<Rightarrow> frame list" where
  "pushChildren [] isRightmost curDepth trailingMargin st = st"
| "pushChildren (childPtr # rest) isRightmost curDepth trailingMargin st =
     pushChildren rest False curDepth trailingMargin
       ((childPtr, curDepth + 1, trailingMargin @ [True], trailingMargin @ [\<not> isRightmost]) # st)"

partial_function (option) printLoop ::
  "('a \<Rightarrow> string) \<Rightarrow> bool \<Rightarrow> 'a store \<Rightarrow> frame list \<Rightarrow> string \<Rightarrow> string
     \<Rightarrow> (string \<times> string) deref option" where
  "printLoop shw dbg h st os err =
     (case st of
        [] \<Rightarrow> Some (Val (os, err))
      | (curNode, curDepth, curMargin, trailingMargin) # rest \<Rightarrow>
          (case curNode of
             None \<Rightarrow>
               printLoop shw dbg h rest
                 (if dbg then os @ ''Depth: '' @ showInt curDepth
                  else os @ marginRows curMargin @ ''[null]'' @ endl)
                 (if dbg then err @ '' Data: '' @ ''[null]'' @ endl else err)
           | Some a \<Rightarrow>
               (case h a of
                  None \<Rightarrow> Some Dangling
                | Some n \<Rightarrow>
                    printLoop shw dbg h
                      (if childrenPtrs n \<noteq> []
                       then pushChildren (rev (childrenPtrs n)) True curDepth trailingMargin rest
                       else rest)
                      (if dbg then os @ ''Depth: '' @ showInt curDepth
                       else os @ marginRows curMargin @ shw (data n) @ endl)
                      (if dbg then err @ '' Data: '' @ shw (data n) @ endl else err))))"

text \<open>\<^verbatim>\<open>Print\<close> reads the tree and the store; its result is what \<^verbatim>\<open>os\<close> and \<^verbatim>\<open>std::cerr\<close>
  hold afterwards.\<close>

definition Print ::
  "('a \<Rightarrow> string) \<Rightarrow> GenericTree \<Rightarrow> 'a store \<Rightarrow> string \<Rightarrow> string
     \<Rightarrow> (string \<times> string) deref option" where
  "Print shw T h os err =
     (case rootNodePtr T of
        None \<Rightarrow> Some (Val (os @ ''[empty tree]'' @ endl, err))
      | Some r \<Rightarrow> printLoop shw (showDebugMessages T) h [(Some r, 0, [], [])] os err)"

section \<open>Trees on the free store\<close>

text \<open>
  The shape of a tree: \<open>Sh a cs\<close> is the node at address \<open>a\<close> with the children slots \<open>cs\<close>
  from left to right, and \<open>Tomb\<close> is a slot that holds the null pointer (a tombstone, or the
  root pointer of an empty tree).
\<close>

datatype shape = Tomb | Sh nat "shape list"

fun ptr_of :: "shape \<Rightarrow> ptr" where
  "ptr_of Tomb = None"
| "ptr_of (Sh a cs) = Some a"

fun nodes :: "shape \<Rightarrow> nat list" where
  "nodes Tomb = []"
| "nodes (Sh a cs) = a # concat (map nodes cs)"

text \<open>
  \<open>repr h par t\<close>: the store holds the shape \<open>t\<close> below a node whose address is \<open>par\<close>. Every
  node of \<open>t\<close> is allocated, lists exactly its slots in \<^verbatim>\<open>childrenPtrs\<close>, and points back at its
  parent (invariants 1, 2 and 4 of the data model).
\<close>

fun repr :: "'a store \<Rightarrow> ptr \<Rightarrow> shape \<Rightarrow> bool" where
  "repr h par Tomb = True"
| "repr h par (Sh a cs) =
     (case h a of
        None \<Rightarrow> False
      | Some n \<Rightarrow>
          parentPtr n = par \<and> childrenPtrs n = map ptr_of cs \<and> (\<forall>c \<in> set cs. repr h (Some a) c))"

text \<open>A well-formed tree object: its root pointer is the root of a shape that the store
  holds, and no address occurs twice in the shape (invariant 3: no sharing, no cycle).\<close>

definition wf_tree :: "'a store \<Rightarrow> GenericTree \<Rightarrow> shape \<Rightarrow> bool" where
  "wf_tree h T t \<longleftrightarrow> ptr_of t = rootNodePtr T \<and> repr h None t \<and> distinct (nodes t)"

text \<open>The nodes reachable from \<open>a\<close> along child pointers, \<open>a\<close> included.\<close>

inductive_set descendants :: "'a store \<Rightarrow> nat \<Rightarrow> nat set" for h :: "'a store" and a :: nat where
  self: "a \<in> descendants h a"
| child: "b \<in> descendants h a \<Longrightarrow> h b = Some n \<Longrightarrow> Some c \<in> set (childrenPtrs n)
            \<Longrightarrow> c \<in> descendants h a"

text \<open>The store in which the nodes at the addresses \<open>S\<close> have lost their null slots, and
  nothing else has changed.\<close>

definition sweep :: "nat set \<Rightarrow> 'a store \<Rightarrow> 'a store" where
  "sweep S h =
     (\<lambda>b. if b \<in> S
          then map_option (\<lambda>n. n\<lparr>childrenPtrs := filter (\<lambda>c. c \<noteq> None) (childrenPtrs n)\<rparr>) (h b)
          else h b)"

text \<open>The shape without its tombstones.\<close>

fun squeeze :: "shape \<Rightarrow> shape" where
  "squeeze Tomb = Tomb"
| "squeeze (Sh a cs) = Sh a (map squeeze (filter (\<lambda>c. c \<noteq> Tomb) cs))"

text \<open>
  What the operations do to a shape: \<open>prune a\<close> puts a tombstone where the node \<open>a\<close> was,
  \<open>cut a\<close> lists the nodes that go with it, and \<open>graft p f\<close> gives the node \<open>p\<close> a new last
  child \<open>f\<close> without children.
\<close>

fun prune :: "nat \<Rightarrow> shape \<Rightarrow> shape" where
  "prune a Tomb = Tomb"
| "prune a (Sh b cs) = (if a = b then Tomb else Sh b (map (prune a) cs))"

fun cut :: "nat \<Rightarrow> shape \<Rightarrow> nat list" where
  "cut a Tomb = []"
| "cut a (Sh b cs) = (if a = b then nodes (Sh b cs) else concat (map (cut a) cs))"

fun graft :: "nat \<Rightarrow> nat \<Rightarrow> shape \<Rightarrow> shape" where
  "graft p f Tomb = Tomb"
| "graft p f (Sh b cs) = Sh b (map (graft p f) cs @ (if b = p then [Sh f []] else []))"

section \<open>Programs over one tree\<close>

text \<open>
  The states a program can reach that owns one tree object and uses only the constructor,
  the debug flag, \<^verbatim>\<open>createRoot\<close>, \<^verbatim>\<open>addChild\<close>, \<^verbatim>\<open>deleteSubtree\<close> and \<^verbatim>\<open>compress\<close>, with any
  arguments. The free store is empty at the start and \<^verbatim>\<open>new\<close> returns an address that is
  not allocated. A call that throws leaves the state of the throw behind, and the program
  may go on from it; a call with undefined behaviour or one that does not return has no
  successor state.
\<close>

inductive built :: "('a \<Rightarrow> string) \<Rightarrow> GenericTree \<times> 'a machine \<Rightarrow> bool"
  for shw :: "'a \<Rightarrow> string" where
  construct: "built shw (GenericTree_new, \<lparr>heap = Map.empty, cerr = e\<rparr>)"
| set_debug: "built shw (T, s) \<Longrightarrow> built shw (T\<lparr>showDebugMessages := flag\<rparr>, s)"
| create: "built shw w \<Longrightarrow> fresh \<notin> dom (heap (snd w)) \<Longrightarrow> createRoot v fresh w = Ok w'
            \<Longrightarrow> built shw w'"
| create_throws: "built shw w \<Longrightarrow> fresh \<notin> dom (heap (snd w))
            \<Longrightarrow> createRoot v fresh w = Throw m w' \<Longrightarrow> built shw w'"
| add: "built shw (T, s) \<Longrightarrow> fresh \<notin> dom (heap s) \<Longrightarrow> addChild this v fresh (heap s) = Val h'
            \<Longrightarrow> built shw (T, s\<lparr>heap := h'\<rparr>)"
| delete: "built shw w \<Longrightarrow> deleteSubtree shw w p = Some (Ok w') \<Longrightarrow> built shw w'"
| delete_throws: "built shw w \<Longrightarrow> deleteSubtree shw w p = Some (Throw m w') \<Longrightarrow> built shw w'"
| compact: "built shw (T, s) \<Longrightarrow> compress T (heap s) = Some (Ok h')
            \<Longrightarrow> built shw (T, s\<lparr>heap := h'\<rparr>)"
| compact_throws: "built shw (T, s) \<Longrightarrow> compress T (heap s) = Some (Throw m h')
            \<Longrightarrow> built shw (T, s\<lparr>heap := h'\<rparr>)"

text \<open>The invariant of these states: the tree is well-formed and every allocated node is
  one of its nodes.\<close>

definition tidy :: "GenericTree \<times> 'a machine \<Rightarrow> shape \<Rightarrow> bool" where
  "tidy w t \<longleftrightarrow> wf_tree (heap (snd w)) (fst w) t \<and> dom (heap (snd w)) = set (nodes t)"

section \<open>Example stores\<close>

text \<open>
  The scenario of the specification: a root \<open>A\<close> (address 0) with the children \<open>B\<close>, \<open>C\<close>, \<open>D\<close>
  (1, 2, 3), and \<open>E\<close> (4) below \<open>B\<close>. The same store holds a second tree: a root \<open>R\<close> (5) with
  one child \<open>S\<close> (6).
\<close>

definition family_heap :: "string store" where
  "family_heap =
     [0 \<mapsto> \<lparr>parentPtr = None, childrenPtrs = [Some 1, Some 2, Some 3], data = ''A''\<rparr>,
      1 \<mapsto> \<lparr>parentPtr = Some 0, childrenPtrs = [Some 4], data = ''B''\<rparr>,
      2 \<mapsto> \<lparr>parentPtr = Some 0, childrenPtrs = [], data = ''C''\<rparr>,
      3 \<mapsto> \<lparr>parentPtr = Some 0, childrenPtrs = [], data = ''D''\<rparr>,
      4 \<mapsto> \<lparr>parentPtr = Some 1, childrenPtrs = [], data = ''E''\<rparr>,
      5 \<mapsto> \<lparr>parentPtr = None, childrenPtrs = [Some 6], data = ''R''\<rparr>,
      6 \<mapsto> \<lparr>parentPtr = Some 5, childrenPtrs = [], data = ''S''\<rparr>]"

definition family_tree :: GenericTree where
  "family_tree = \<lparr>showDebugMessages = False, rootNodePtr = Some 0\<rparr>"

definition family_shape :: shape where
  "family_shape = Sh 0 [Sh 1 [Sh 4 []], Sh 2 [], Sh 3 []]"

definition other_tree :: GenericTree where
  "other_tree = \<lparr>showDebugMessages = False, rootNodePtr = Some 5\<rparr>"

definition other_shape :: shape where
  "other_shape = Sh 5 [Sh 6 []]"

text \<open>The same store after \<open>B\<close> and \<open>E\<close> were released: the first slot of \<open>A\<close> is a tombstone.\<close>

definition bereft_heap :: "string store" where
  "bereft_heap =
     [0 \<mapsto> \<lparr>parentPtr = None, childrenPtrs = [None, Some 2, Some 3], data = ''A''\<rparr>,
      2 \<mapsto> \<lparr>parentPtr = Some 0, childrenPtrs = [], data = ''C''\<rparr>,
      3 \<mapsto> \<lparr>parentPtr = Some 0, childrenPtrs = [], data = ''D''\<rparr>,
      5 \<mapsto> \<lparr>parentPtr = None, childrenPtrs = [Some 6], data = ''R''\<rparr>,
      6 \<mapsto> \<lparr>parentPtr = Some 5, childrenPtrs = [], data = ''S''\<rparr>]"

definition bereft_shape :: shape where
  "bereft_shape = Sh 0 [Tomb, Sh 2 [], Sh 3 []]"

text \<open>A tree whose root has lost its only child.\<close>

definition stump_heap :: "string store" where
  "stump_heap = [0 \<mapsto> \<lparr>parentPtr = None, childrenPtrs = [None], data = ''A''\<rparr>]"

text \<open>A store with a broken link: node 1 names node 0 as its parent, node 0 lists no child.\<close>

definition orphan_heap :: "string store" where
  "orphan_heap =
     [0 \<mapsto> \<lparr>parentPtr = None, childrenPtrs = [], data = ''A''\<rparr>,
      1 \<mapsto> \<lparr>parentPtr = Some 0, childrenPtrs = [], data = ''B''\<rparr>]"

section \<open>Rendering: the empty tree, the single node, the debug listing\<close>

text \<open>
  C7. \<^verbatim>\<open>Print\<close> on an empty tree appends exactly the line \<open>[empty tree]\<close> to the output
  stream and returns; on a tree that is a single root without children, with debugging off,
  it appends exactly one line, the value of the root, with no margin before it. Nothing is
  written to \<^verbatim>\<open>std::cerr\<close> in either case.
\<close>

theorem Print_empty_and_single:
  "Print shw (T\<lparr>rootNodePtr := None\<rparr>) h os err = Some (Val (os @ ''[empty tree]'' @ endl, err))
   \<and> Print shw \<lparr>showDebugMessages = False, rootNodePtr = Some r\<rparr>
         (h(r \<mapsto> TreeNode_new x)) os err
       = Some (Val (os @ shw x @ endl, err))
   \<and> Print (\<lambda>v. v) \<lparr>showDebugMessages = False, rootNodePtr = Some r\<rparr>
         (h(r \<mapsto> TreeNode_new ''X'')) [] []
       = Some (Val (''X'' @ endl, []))"
  by (simp add: Print_def printLoop.simps TreeNode_new_def marginRows_def)

text \<open>
  C9. With debugging on, \<^verbatim>\<open>Print\<close> on a single root writes the first half of its trace line,
  \<open>Depth: 0\<close>, to the output stream \<^verbatim>\<open>os\<close> and only the second half, the value, to
  \<^verbatim>\<open>std::cerr\<close>.
\<close>

theorem Print_debug_writes_depth_to_os:
  "Print (\<lambda>v. v) \<lparr>showDebugMessages = True, rootNodePtr = Some 0\<rparr>
      (Map.empty(0 \<mapsto> TreeNode_new ''X'')) [] []
   = Some (Val (''Depth: 0'', '' Data: X'' @ endl))"
  by (simp add: Print_def printLoop.simps TreeNode_new_def showInt_def)

section \<open>The walk to the root\<close>

lemma walkBack_root: "h r = Some n \<Longrightarrow> parentPtr n = None \<Longrightarrow> walkBack h r = Some (Val r)"
  by (subst walkBack.simps) simp

lemma walkBack_step: "h a = Some n \<Longrightarrow> parentPtr n = Some p \<Longrightarrow> walkBack h a = walkBack h p"
  by (subst walkBack.simps) simp

text \<open>From any node of a shape the walk passes through the root of the shape.\<close>

lemma walkBack_repr:
  "repr h par t \<Longrightarrow> a \<in> set (nodes t) \<Longrightarrow> \<exists>r. ptr_of t = Some r \<and> walkBack h a = walkBack h r"
proof (induction t arbitrary: par)
  case Tomb
  then show ?case by simp
next
  case (Sh r cs)
  show ?case
  proof (cases "a = r")
    case True
    then show ?thesis by simp
  next
    case False
    with Sh.prems(2) obtain c where c: "c \<in> set cs" "a \<in> set (nodes c)" by auto
    from Sh.prems(1) c(1) have rc: "repr h (Some r) c"
      by (auto split: option.splits)
    from Sh.IH[OF c(1) rc c(2)] obtain b where b: "ptr_of c = Some b" "walkBack h a = walkBack h b"
      by blast
    from b(1) obtain ds where cb: "c = Sh b ds" by (cases c) auto
    from rc cb have "walkBack h b = walkBack h r"
      by (auto split: option.splits intro: walkBack_step)
    with b(2) show ?thesis by simp
  qed
qed

lemma walkBack_wf:
  assumes "repr h None t" "a \<in> set (nodes t)"
  shows "\<exists>r. ptr_of t = Some r \<and> walkBack h a = Some (Val r)"
proof -
  from walkBack_repr[OF assms] obtain r where r: "ptr_of t = Some r" "walkBack h a = walkBack h r"
    by blast
  from r(1) obtain cs where t: "t = Sh r cs" by (cases t) auto
  from assms(1) t have "walkBack h r = Some (Val r)"
    by (auto split: option.splits intro: walkBack_root)
  with r show ?thesis by simp
qed

section \<open>Deleting through the wrong tree\<close>

text \<open>
  C2. Let \<open>B\<close> be a well-formed tree, \<open>n\<close> one of its nodes, and \<open>A\<close> a tree object with another
  root pointer. Then \<^verbatim>\<open>A.deleteSubtree(n)\<close> throws the cross-tree error, and at the throw the
  tree object \<open>A\<close>, the free store (so every node of \<open>A\<close> and of \<open>B\<close>) and \<^verbatim>\<open>std::cerr\<close> are
  what they were before the call.
\<close>

theorem deleteSubtree_cross_tree:
  assumes "wf_tree (heap s) B tb" and "n \<in> set (nodes tb)" and "rootNodePtr A \<noteq> rootNodePtr B"
  shows "deleteSubtree shw (A, s) (Some n) = Some (Throw CrossTreeError (A, s))"
proof -
  from assms(1,2) obtain r where r: "rootNodePtr B = Some r" "walkBack (heap s) n = Some (Val r)"
    using walkBack_wf[of "heap s" tb n] by (auto simp: wf_tree_def)
  with assms(3) show ?thesis by (auto simp: deleteSubtree_def)
qed

theorem deleteSubtree_cross_tree_witness:
  "wf_tree family_heap other_tree other_shape \<and> 6 \<in> set (nodes other_shape)
   \<and> rootNodePtr family_tree \<noteq> rootNodePtr other_tree
   \<and> deleteSubtree (\<lambda>v. v) (family_tree, \<lparr>heap = family_heap, cerr = []\<rparr>) (Some 6)
       = Some (Throw CrossTreeError (family_tree, \<lparr>heap = family_heap, cerr = []\<rparr>))"
proof -
  have 1: "wf_tree (heap \<lparr>heap = family_heap, cerr = []\<rparr>) other_tree other_shape"
    by (simp add: wf_tree_def family_heap_def other_tree_def other_shape_def)
  have 2: "6 \<in> set (nodes other_shape)"
    by (simp add: other_shape_def)
  have 3: "rootNodePtr family_tree \<noteq> rootNodePtr other_tree"
    by (simp add: family_tree_def other_tree_def)
  from deleteSubtree_cross_tree[OF 1 2 3, of "\<lambda>v. v"] 1 2 3 show ?thesis by simp
qed

section \<open>A target that its parent does not list\<close>

lemma detach_absent: "Some t \<notin> set cs \<Longrightarrow> detach t cs = (cs, False)"
  by (induction cs) auto

text \<open>
  C6, as stated, fails: the membership check comes first. In \<open>orphan_heap\<close> node 1 has the
  parent 0, which does not list it; deleting it through a tree whose root is not node 0 (here
  an empty tree) throws the cross-tree error, not the corruption error.
\<close>

theorem deleteSubtree_unlisted_counterexample:
  "orphan_heap 1 = Some \<lparr>parentPtr = Some 0, childrenPtrs = [], data = ''B''\<rparr>
   \<and> orphan_heap 0 = Some \<lparr>parentPtr = None, childrenPtrs = [], data = ''A''\<rparr>
   \<and> Some 1 \<notin> set (childrenPtrs \<lparr>parentPtr = None, childrenPtrs = [], data = ''A''\<rparr>)
   \<and> deleteSubtree (\<lambda>v. v) (GenericTree_new, \<lparr>heap = orphan_heap, cerr = []\<rparr>) (Some 1)
       = Some (Throw CrossTreeError (GenericTree_new, \<lparr>heap = orphan_heap, cerr = []\<rparr>))
   \<and> CrossTreeError \<noteq> CorruptionError"
proof -
  have "walkBack orphan_heap 1 = walkBack orphan_heap 0"
    by (rule walkBack_step[where n = "\<lparr>parentPtr = Some 0, childrenPtrs = [], data = ''B''\<rparr>"])
       (simp_all add: orphan_heap_def)
  also have "\<dots> = Some (Val 0)"
    by (rule walkBack_root[where n = "\<lparr>parentPtr = None, childrenPtrs = [], data = ''A''\<rparr>"])
       (simp_all add: orphan_heap_def)
  finally show ?thesis
    by (simp add: deleteSubtree_def GenericTree_new_def orphan_heap_def
        CrossTreeError_def CorruptionError_def)
qed

text \<open>
  C6, amended. When the walk from the target ends at this tree's root, the target has a
  parent, and the parent's \<^verbatim>\<open>childrenPtrs\<close> does not contain the target, the call writes the
  message to \<^verbatim>\<open>std::cerr\<close> and throws the corruption error; the tree object and the free store
  are unchanged at the throw, so nothing was detached or released.
\<close>

theorem deleteSubtree_unlisted:
  assumes "walkBack (heap s) t = Some (Val r)" and "rootNodePtr T = Some r"
    and "heap s t = Some tn" and "parentPtr tn = Some p" and "heap s p = Some pn"
    and "Some t \<notin> set (childrenPtrs pn)"
  shows "deleteSubtree shw (T, s) (Some t)
         = Some (Throw CorruptionError (T, s\<lparr>cerr := cerr s @ CorruptionError @ endl\<rparr>))"
proof -
  have "(heap s)(p \<mapsto> pn) = heap s"
    using assms(5) by (rule map_upd_triv)
  then have "detachFromParent t s
             = Throw CorruptionError (s\<lparr>cerr := cerr s @ CorruptionError @ endl\<rparr>)"
    using assms by (simp add: detachFromParent_def detach_absent)
  then show ?thesis
    using assms(1,2) by (simp add: deleteSubtree_def)
qed

theorem deleteSubtree_unlisted_witness:
  "walkBack orphan_heap 1 = Some (Val 0)
   \<and> deleteSubtree (\<lambda>v. v)
        (\<lparr>showDebugMessages = False, rootNodePtr = Some 0\<rparr>, \<lparr>heap = orphan_heap, cerr = []\<rparr>)
        (Some 1)
      = Some (Throw CorruptionError
          (\<lparr>showDebugMessages = False, rootNodePtr = Some 0\<rparr>,
           \<lparr>heap = orphan_heap, cerr = CorruptionError @ endl\<rparr>))"
proof -
  let ?s = "\<lparr>heap = orphan_heap, cerr = []\<rparr>"
  let ?T = "\<lparr>showDebugMessages = False, rootNodePtr = Some 0\<rparr>"
  let ?n1 = "\<lparr>parentPtr = Some 0, childrenPtrs = [], data = ''B''\<rparr>"
  let ?n0 = "\<lparr>parentPtr = None, childrenPtrs = [], data = ''A''\<rparr>"
  have "walkBack orphan_heap 1 = walkBack orphan_heap 0"
    by (rule walkBack_step[where n = ?n1]) (simp_all add: orphan_heap_def)
  also have "\<dots> = Some (Val 0)"
    by (rule walkBack_root[where n = ?n0]) (simp_all add: orphan_heap_def)
  finally have 1: "walkBack (heap ?s) 1 = Some (Val 0)" by simp
  have 2: "rootNodePtr ?T = Some 0" by simp
  have 3: "heap ?s 1 = Some ?n1" by (simp add: orphan_heap_def)
  have 4: "parentPtr ?n1 = Some 0" by simp
  have 5: "heap ?s 0 = Some ?n0" by (simp add: orphan_heap_def)
  have 6: "Some 1 \<notin> set (childrenPtrs ?n0)" by simp
  from deleteSubtree_unlisted[OF 1 2 3 4 5 6, of "\<lambda>v. v"] 1 show ?thesis by simp
qed

section \<open>Shapes and the store\<close>

text \<open>A shape only constrains the store at its own nodes.\<close>

lemma repr_frame:
  "(\<And>b. b \<in> set (nodes t) \<Longrightarrow> h' b = h b) \<Longrightarrow> repr h' par t = repr h par t"
proof (induction t arbitrary: par)
  case Tomb
  show ?case by simp
next
  case (Sh a cs)
  have a: "h' a = h a" using Sh.prems by simp
  have "repr h' (Some a) c = repr h (Some a) c" if "c \<in> set cs" for c
    using that Sh.prems by (intro Sh.IH) auto
  then show ?case by (auto simp: a split: option.splits)
qed

lemma repr_allocated: "repr h par t \<Longrightarrow> set (nodes t) \<subseteq> dom h"
proof (induction t arbitrary: par)
  case Tomb
  show ?case by simp
next
  case (Sh a cs)
  then show ?case by (fastforce split: option.splits)
qed

lemma repr_has_parent:
  "repr h (Some q) u \<Longrightarrow> b \<in> set (nodes u) \<Longrightarrow> \<exists>n q'. h b = Some n \<and> parentPtr n = Some q'"
proof (induction u arbitrary: q)
  case Tomb
  then show ?case by simp
next
  case (Sh c cs)
  show ?case
  proof (cases "b = c")
    case True
    with Sh.prems(1) show ?thesis by (auto split: option.splits)
  next
    case False
    with Sh.prems(2) obtain d where d: "d \<in> set cs" "b \<in> set (nodes d)" by auto
    with Sh.prems(1) have "repr h (Some c) d" by (auto split: option.splits)
    from Sh.IH[OF d(1) this d(2)] show ?thesis .
  qed
qed

lemma distinct_child:
  "distinct (concat (map nodes ds)) \<Longrightarrow> d \<in> set ds \<Longrightarrow> distinct (nodes d)"
  by (induction ds) auto

lemma nodes_child_subset: "d \<in> set ds \<Longrightarrow> set (nodes d) \<subseteq> set (nodes (Sh b ds))"
  by auto

text \<open>A node of a shape is its root, or is a slot of some node of the shape.\<close>

lemma locate:
  "repr h par t \<Longrightarrow> distinct (nodes t) \<Longrightarrow> a \<in> set (nodes t) \<Longrightarrow>
   \<exists>cs. (t = Sh a cs \<or>
         (ptr_of t \<noteq> Some a \<and>
          (\<exists>p pcs pp. repr h pp (Sh p pcs) \<and> distinct (nodes (Sh p pcs)) \<and> Sh a cs \<in> set pcs
                \<and> set (nodes (Sh p pcs)) \<subseteq> set (nodes t))))"
proof (induction t arbitrary: par)
  case Tomb
  then show ?case by simp
next
  case (Sh b ds)
  show ?case
  proof (cases "a = b")
    case True
    then show ?thesis by simp
  next
    case False
    with Sh.prems(3) obtain d where d: "d \<in> set ds" "a \<in> set (nodes d)" by auto
    from Sh.prems(1) d(1) have rd: "repr h (Some b) d" by (auto split: option.splits)
    from Sh.prems(2) d(1) have dd: "distinct (nodes d)" by (auto intro: distinct_child)
    from Sh.IH[OF d(1) rd dd d(2)] obtain cs where
      cs: "d = Sh a cs \<or>
         (ptr_of d \<noteq> Some a \<and>
          (\<exists>p pcs pp. repr h pp (Sh p pcs) \<and> distinct (nodes (Sh p pcs)) \<and> Sh a cs \<in> set pcs
                \<and> set (nodes (Sh p pcs)) \<subseteq> set (nodes d)))" by blast
    have "\<exists>p pcs pp. repr h pp (Sh p pcs) \<and> distinct (nodes (Sh p pcs)) \<and> Sh a cs \<in> set pcs
                \<and> set (nodes (Sh p pcs)) \<subseteq> set (nodes (Sh b ds))"
    proof (cases "d = Sh a cs")
      case True
      with Sh.prems(1,2) d(1) show ?thesis by blast
    next
      case False
      with cs obtain p pcs pp where "repr h pp (Sh p pcs)" "distinct (nodes (Sh p pcs))"
        "Sh a cs \<in> set pcs" "set (nodes (Sh p pcs)) \<subseteq> set (nodes d)" by blast
      moreover have "set (nodes d) \<subseteq> set (nodes (Sh b ds))" using d(1) by (rule nodes_child_subset)
      ultimately show ?thesis by blast
    qed
    with False show ?thesis by auto
  qed
qed

text \<open>Without repeated addresses, a node occupies one slot of its parent only.\<close>

lemma slot_unique:
  "distinct (concat (map nodes pcs)) \<Longrightarrow> i < length pcs \<Longrightarrow> j < length pcs \<Longrightarrow>
   ptr_of (pcs ! i) = Some a \<Longrightarrow> ptr_of (pcs ! j) = Some a \<Longrightarrow> i = j"
proof (induction pcs arbitrary: i j)
  case Nil
  then show ?case by simp
next
  case (Cons c pcs)
  have in_nodes: "a \<in> set (nodes u)" if "ptr_of u = Some a" for u
    using that by (cases u) auto
  have tail: "a \<in> set (concat (map nodes pcs))" if "k < length pcs" "ptr_of (pcs ! k) = Some a" for k
    using that in_nodes[of "pcs ! k"] nth_mem[of k pcs] by auto
  show ?case
  proof (cases i)
    case 0
    show ?thesis
    proof (cases j)
      case 0
      with \<open>i = 0\<close> show ?thesis by simp
    next
      case (Suc j')
      with Cons.prems 0 have "a \<in> set (nodes c)" "a \<in> set (concat (map nodes pcs))"
        using in_nodes[of c] tail[of j'] by auto
      with Cons.prems(1) show ?thesis by auto
    qed
  next
    case (Suc i')
    show ?thesis
    proof (cases j)
      case 0
      with Cons.prems Suc have "a \<in> set (nodes c)" "a \<in> set (concat (map nodes pcs))"
        using in_nodes[of c] tail[of i'] by auto
      with Cons.prems(1) show ?thesis by auto
    next
      case (Suc j')
      with Cons.prems \<open>i = Suc i'\<close> Cons.IH[of i' j'] show ?thesis by auto
    qed
  qed
qed

text \<open>Below a node of a shape, the child pointers reach exactly the nodes of its subshape.\<close>

lemma descendants_repr:
  assumes "repr h par (Sh a cs)"
  shows "descendants h a = set (nodes (Sh a cs))"
proof
  have closed: "b \<in> set (nodes t) \<Longrightarrow> repr h p t \<Longrightarrow> h b = Some n \<Longrightarrow> Some c \<in> set (childrenPtrs n)
      \<Longrightarrow> c \<in> set (nodes t)" for b t p n c
  proof (induction t arbitrary: p)
    case Tomb
    then show ?case by simp
  next
    case (Sh r ds)
    show ?case
    proof (cases "b = r")
      case True
      with Sh.prems have "Some c \<in> ptr_of ` set ds" by (auto split: option.splits)
      then obtain d where d: "d \<in> set ds" "ptr_of d = Some c" by auto
      from d(2) have "c \<in> set (nodes d)" by (cases d) auto
      with d(1) show ?thesis by auto
    next
      case False
      with Sh.prems obtain d where d: "d \<in> set ds" "b \<in> set (nodes d)" by auto
      with Sh.prems have "repr h (Some r) d" by (auto split: option.splits)
      from Sh.IH[OF d(1) d(2) this Sh.prems(3,4)] d(1) show ?thesis by auto
    qed
  qed
  show "descendants h a \<subseteq> set (nodes (Sh a cs))"
  proof
    fix x assume "x \<in> descendants h a"
    then show "x \<in> set (nodes (Sh a cs))"
    proof induction
      case self
      show ?case by simp
    next
      case (child b n c)
      from closed[OF child.IH assms child.hyps(2,3)] show ?case .
    qed
  qed
  have sub: "repr h p t \<Longrightarrow> ptr_of t = Some r \<Longrightarrow> r \<in> descendants h a \<Longrightarrow> set (nodes t) \<subseteq> descendants h a"
    for t p r
  proof (induction t arbitrary: p r)
    case Tomb
    then show ?case by simp
  next
    case (Sh b ds)
    then have br: "b \<in> descendants h a" by simp
    from Sh.prems(1) obtain n where n: "h b = Some n" "childrenPtrs n = map ptr_of ds"
      and kids: "\<And>d. d \<in> set ds \<Longrightarrow> repr h (Some b) d" by (auto split: option.splits)
    have "set (nodes d) \<subseteq> descendants h a" if d: "d \<in> set ds" for d
    proof (cases d)
      case Tomb
      then show ?thesis by simp
    next
      case (Sh e es)
      with d n have "Some e \<in> set (childrenPtrs n)" by force
      with br n(1) have "e \<in> descendants h a" by (rule descendants.child)
      with Sh.IH[OF d kids[OF d], of e] Sh show ?thesis by simp
    qed
    with br show ?case by auto
  qed
  show "set (nodes (Sh a cs)) \<subseteq> descendants h a"
    using sub[OF assms, of a] by (simp add: descendants.self)
qed

section \<open>Enumeration and release\<close>

lemma size_list_rev: "size_list f (rev xs) = size_list f xs"
  by (induction xs) (simp_all add: size_list_append)

lemma mset_nodes_rev: "mset (concat (map nodes (rev cs))) = mset (concat (map nodes cs))"
  by (induction cs) simp_all

text \<open>
  The exploration loop on a stack of shapes that the store holds: it returns, and it has
  pushed every node of the shapes once onto the delete stack.
\<close>

lemma explore_forest:
  "(\<And>t. t \<in> set fs \<Longrightarrow> \<exists>par. repr h par t) \<Longrightarrow>
   \<exists>ds err'. explore shw dbg h (map ptr_of fs) del err = Some (Val (map Some ds @ del, err'))
        \<and> mset ds = mset (concat (map nodes fs))"
proof (induction "size_list size fs" arbitrary: fs del err rule: less_induct)
  case less
  show ?case
  proof (cases fs)
    case Nil
    then show ?thesis by (subst explore.simps) simp
  next
    case (Cons t fs')
    show ?thesis
    proof (cases t)
      case Tomb
      let ?err = "if dbg then err @ ''Exploring node: '' @ ''[null]'' @ endl else err"
      have "size_list size fs' < size_list size fs" using Cons by simp
      moreover have "\<And>u. u \<in> set fs' \<Longrightarrow> \<exists>par. repr h par u" using less.prems Cons by simp
      ultimately obtain ds err' where
        "explore shw dbg h (map ptr_of fs') del ?err = Some (Val (map Some ds @ del, err'))"
        "mset ds = mset (concat (map nodes fs'))"
        using less.hyps[of fs' del ?err] by blast
      then show ?thesis using Cons Tomb by (subst explore.simps) auto
    next
      case (Sh a cs)
      from less.prems[of t] Cons Sh obtain par where "repr h par (Sh a cs)" by auto
      then obtain n where n: "h a = Some n" "childrenPtrs n = map ptr_of cs"
        and kids: "\<And>c. c \<in> set cs \<Longrightarrow> repr h (Some a) c"
        by (auto split: option.splits)
      let ?err = "if dbg then err @ ''Exploring node: '' @ shw (data n) @ endl else err"
      have "size_list size (rev cs @ fs') < size_list size fs"
        using Cons Sh by (simp add: size_list_rev)
      moreover have "\<And>u. u \<in> set (rev cs @ fs') \<Longrightarrow> \<exists>par. repr h par u"
        using less.prems Cons kids by auto
      ultimately obtain ds err' where ds:
        "explore shw dbg h (map ptr_of (rev cs @ fs')) (Some a # del) ?err
           = Some (Val (map Some ds @ Some a # del, err'))"
        "mset ds = mset (concat (map nodes (rev cs @ fs')))"
        using less.hyps[of "rev cs @ fs'" "Some a # del" ?err] by blast
      have "explore shw dbg h (map ptr_of fs) del err
            = explore shw dbg h (map ptr_of (rev cs @ fs')) (Some a # del) ?err"
        using Cons Sh n by (subst explore.simps) (simp add: rev_map)
      then have "explore shw dbg h (map ptr_of fs) del err
                 = Some (Val (map Some (ds @ [a]) @ del, err'))"
        using ds(1) by simp
      moreover have "mset (ds @ [a]) = mset (concat (map nodes fs))"
        using ds(2) Cons Sh by (simp add: mset_nodes_rev)
      ultimately show ?thesis by blast
    qed
  qed
qed

text \<open>The release loop on distinct allocated nodes returns the store without them.\<close>

lemma deleteLoop_distinct:
  "distinct ds \<Longrightarrow> set ds \<subseteq> dom h \<Longrightarrow>
   \<exists>err'. deleteLoop shw dbg (map Some ds) h err
          = Val ((\<lambda>b. if b \<in> set ds then None else h b), err')"
proof (induction ds arbitrary: h err)
  case Nil
  show ?case by simp
next
  case (Cons a ds)
  from Cons.prems obtain n where n: "h a = Some n" by auto
  let ?err = "if dbg then err @ ''Deleting node: '' @ shw (data n) @ endl else err"
  have sub: "set ds \<subseteq> dom (h(a := None))" using Cons.prems by auto
  have dist: "distinct ds" using Cons.prems(1) by simp
  from Cons.IH[OF dist sub, of ?err] obtain err' where
    "deleteLoop shw dbg (map Some ds) (h(a := None)) ?err
       = Val ((\<lambda>b. if b \<in> set ds then None else (h(a := None)) b), err')"
    by blast
  moreover have "(\<lambda>b. if b \<in> set ds then None else (h(a := None)) b)
                 = (\<lambda>b. if b \<in> set (a # ds) then None else h b)"
    by auto
  ultimately show ?case using n by simp
qed

lemma release_wf:
  assumes "repr (heap s1) par (Sh a cs)" and "distinct (nodes (Sh a cs))"
  shows "\<exists>ds err1 err2.
           explore shw (showDebugMessages T) (heap s1) [Some a] [] (cerr s1)
             = Some (Val (map Some ds, err1))
         \<and> mset ds = mset (nodes (Sh a cs))
         \<and> deleteLoop shw (showDebugMessages T) (map Some ds) (heap s1) err1
             = Val ((\<lambda>b. if b \<in> set (nodes (Sh a cs)) then None else heap s1 b), err2)
         \<and> release shw T a w s1
             = Some (Ok ((if w then T\<lparr>rootNodePtr := None\<rparr> else T),
                  s1\<lparr>heap := (\<lambda>b. if b \<in> set (nodes (Sh a cs)) then None else heap s1 b),
                     cerr := err2\<rparr>))"
proof -
  have "\<And>t. t \<in> set [Sh a cs] \<Longrightarrow> \<exists>par. repr (heap s1) par t" using assms(1) by auto
  from explore_forest[of "[Sh a cs]" "heap s1" shw "showDebugMessages T" "[]" "cerr s1", OF this]
  obtain ds err1 where ds:
    "explore shw (showDebugMessages T) (heap s1) [Some a] [] (cerr s1) = Some (Val (map Some ds, err1))"
    "mset ds = mset (nodes (Sh a cs))" by auto
  from ds(2) have set_ds: "set ds = set (nodes (Sh a cs))" by (rule mset_eq_setD)
  from mset_eq_imp_distinct_iff[OF ds(2)] assms(2) have "distinct ds" by blast
  moreover from repr_allocated[OF assms(1)] set_ds have "set ds \<subseteq> dom (heap s1)" by simp
  ultimately obtain err2 where
    "deleteLoop shw (showDebugMessages T) (map Some ds) (heap s1) err1
       = Val ((\<lambda>b. if b \<in> set ds then None else heap s1 b), err2)"
    using deleteLoop_distinct by blast
  with set_ds have del:
    "deleteLoop shw (showDebugMessages T) (map Some ds) (heap s1) err1
       = Val ((\<lambda>b. if b \<in> set (nodes (Sh a cs)) then None else heap s1 b), err2)" by simp
  with ds(1) have "release shw T a w s1
             = Some (Ok ((if w then T\<lparr>rootNodePtr := None\<rparr> else T),
                  s1\<lparr>heap := (\<lambda>b. if b \<in> set (nodes (Sh a cs)) then None else heap s1 b),
                     cerr := err2\<rparr>))"
    by (simp add: release_def)
  with ds del show ?thesis by blast
qed

text \<open>The search nulls the first slot that holds the target.\<close>

lemma detach_first:
  "Some a \<in> set cs \<Longrightarrow> \<exists>i<length cs. cs ! i = Some a \<and> detach a cs = (cs[i := None], True)"
proof (induction cs)
  case Nil
  then show ?case by simp
next
  case (Cons c cs)
  show ?case
  proof (cases "c = Some a")
    case True
    then have "0 < length (c # cs) \<and> (c # cs) ! 0 = Some a \<and> detach a (c # cs) = ((c # cs)[0 := None], True)"
      by simp
    then show ?thesis by blast
  next
    case False
    with Cons obtain i where "i < length cs" "cs ! i = Some a" "detach a cs = (cs[i := None], True)"
      by auto
    with False have "Suc i < length (c # cs) \<and> (c # cs) ! Suc i = Some a
        \<and> detach a (c # cs) = ((c # cs)[Suc i := None], True)"
      by simp
    then show ?thesis by blast
  qed
qed

section \<open>Deleting a node of a well-formed tree\<close>

text \<open>
  The whole call on a node \<open>a\<close> of a well-formed tree: the subshape \<open>Sh a cs\<close> below \<open>a\<close>, the
  state \<open>s1\<close> after the slot of \<open>a\<close> in its parent was nulled, the enumeration \<open>ds\<close>, and the
  final state.
\<close>

lemma deleteSubtree_wf:
  assumes wf: "wf_tree (heap s) T t" and a: "a \<in> set (nodes t)"
  shows "\<exists>cs tn s1 ds err1 err2.
      heap s a = Some tn
    \<and> repr (heap s) (parentPtr tn) (Sh a cs) \<and> distinct (nodes (Sh a cs))
    \<and> set (nodes (Sh a cs)) \<subseteq> set (nodes t)
    \<and> (rootNodePtr T = Some a \<longleftrightarrow> parentPtr tn = None)
    \<and> detachFromParent a s = Ok s1 \<and> cerr s1 = cerr s
    \<and> (case parentPtr tn of
          None \<Rightarrow> s1 = s \<and> t = Sh a cs
        | Some p \<Rightarrow> p \<in> set (nodes t) \<and> p \<notin> set (nodes (Sh a cs)) \<and>
            (\<exists>pn pcs. heap s p = Some pn \<and> childrenPtrs pn = map ptr_of pcs \<and> Sh a cs \<in> set pcs
               \<and> distinct (concat (map nodes pcs))
               \<and> heap s1 = (heap s)(p \<mapsto> pn\<lparr>childrenPtrs := fst (detach a (childrenPtrs pn))\<rparr>)))
    \<and> explore shw (showDebugMessages T) (heap s1) [Some a] [] (cerr s)
          = Some (Val (map Some ds, err1))
    \<and> mset ds = mset (nodes (Sh a cs))
    \<and> deleteLoop shw (showDebugMessages T) (map Some ds) (heap s1) err1
          = Val ((\<lambda>b. if b \<in> set (nodes (Sh a cs)) then None else heap s1 b), err2)
    \<and> deleteSubtree shw (T, s) (Some a)
          = Some (Ok ((if rootNodePtr T = Some a then T\<lparr>rootNodePtr := None\<rparr> else T),
               s\<lparr>heap := (\<lambda>b. if b \<in> set (nodes (Sh a cs)) then None else heap s1 b),
                  cerr := err2\<rparr>))"
proof -
  let ?h = "heap s"
  from wf have root: "ptr_of t = rootNodePtr T" and rt: "repr ?h None t" and dt: "distinct (nodes t)"
    by (simp_all add: wf_tree_def)
  from walkBack_wf[OF rt a] root obtain r where
    r: "rootNodePtr T = Some r" "walkBack ?h a = Some (Val r)" by auto
  from locate[OF rt dt a] obtain cs where
    loc: "t = Sh a cs \<or>
         (ptr_of t \<noteq> Some a \<and>
          (\<exists>p pcs pp. repr ?h pp (Sh p pcs) \<and> distinct (nodes (Sh p pcs)) \<and> Sh a cs \<in> set pcs
                \<and> set (nodes (Sh p pcs)) \<subseteq> set (nodes t)))" by blast
  show ?thesis
  proof (cases "t = Sh a cs")
    case True
    with rt obtain tn where tn: "?h a = Some tn" "parentPtr tn = None"
      by (auto split: option.splits)
    from True root have ra: "rootNodePtr T = Some a" by simp
    from tn have det: "detachFromParent a s = Ok s" by (simp add: detachFromParent_def)
    from rt True tn have rs: "repr (heap s) (parentPtr tn) (Sh a cs)" by simp
    from dt True have ds: "distinct (nodes (Sh a cs))" by simp
    from release_wf[OF rs ds, of shw T True] obtain ds err1 err2 where rel:
      "explore shw (showDebugMessages T) ?h [Some a] [] (cerr s) = Some (Val (map Some ds, err1))"
      "mset ds = mset (nodes (Sh a cs))"
      "deleteLoop shw (showDebugMessages T) (map Some ds) ?h err1
         = Val ((\<lambda>b. if b \<in> set (nodes (Sh a cs)) then None else ?h b), err2)"
      "release shw T a True s
         = Some (Ok (T\<lparr>rootNodePtr := None\<rparr>,
              s\<lparr>heap := (\<lambda>b. if b \<in> set (nodes (Sh a cs)) then None else ?h b), cerr := err2\<rparr>))"
      by auto
    from r ra det rel(4) have del: "deleteSubtree shw (T, s) (Some a)
          = Some (Ok ((if rootNodePtr T = Some a then T\<lparr>rootNodePtr := None\<rparr> else T),
               s\<lparr>heap := (\<lambda>b. if b \<in> set (nodes (Sh a cs)) then None else ?h b), cerr := err2\<rparr>))"
      by (simp add: deleteSubtree_def)
    have "case parentPtr tn of None \<Rightarrow> s = s \<and> t = Sh a cs | Some p \<Rightarrow> False"
      using tn(2) True by simp
    with tn rs ds True ra det rel(1-3) del show ?thesis
      by (intro exI[of _ cs] exI[of _ tn] exI[of _ s] exI[of _ ds] exI[of _ err1] exI[of _ err2])
         simp
  next
    case False
    with loc obtain p pcs pp where nr: "ptr_of t \<noteq> Some a"
      and rp: "repr ?h pp (Sh p pcs)" and dp: "distinct (nodes (Sh p pcs))"
      and mem: "Sh a cs \<in> set pcs" and sub: "set (nodes (Sh p pcs)) \<subseteq> set (nodes t)"
      by blast
    from rp obtain pn where pn: "?h p = Some pn" "childrenPtrs pn = map ptr_of pcs"
      and kids: "\<And>c. c \<in> set pcs \<Longrightarrow> repr ?h (Some p) c"
      by (auto split: option.splits)
    from kids[OF mem] obtain tn where tn: "?h a = Some tn" "parentPtr tn = Some p"
      by (auto split: option.splits)
    from kids[OF mem] tn have rs: "repr ?h (parentPtr tn) (Sh a cs)" by simp
    from dp have dcs: "distinct (concat (map nodes pcs))" and pout: "p \<notin> set (concat (map nodes pcs))"
      by simp_all
    from dcs mem have ds: "distinct (nodes (Sh a cs))" by (rule distinct_child)
    from pout mem have pa: "p \<notin> set (nodes (Sh a cs))" by auto
    from nodes_child_subset[OF mem, of p] sub
    have ssub: "set (nodes (Sh a cs)) \<subseteq> set (nodes t)" by (rule subset_trans)
    from sub have pt: "p \<in> set (nodes t)" by simp
    from nr root have ra: "rootNodePtr T \<noteq> Some a" by simp
    from mem pn(2) have "Some a \<in> set (childrenPtrs pn)" by force
    from detach_first[OF this] obtain i where
      i: "detach a (childrenPtrs pn) = ((childrenPtrs pn)[i := None], True)" by blast
    define s1 where "s1 = s\<lparr>heap := ?h(p \<mapsto> pn\<lparr>childrenPtrs := fst (detach a (childrenPtrs pn))\<rparr>)\<rparr>"
    from tn pn i have det: "detachFromParent a s = Ok s1"
      by (simp add: detachFromParent_def s1_def)
    have c1: "cerr s1 = cerr s" by (simp add: s1_def)
    have h1: "heap s1 = ?h(p \<mapsto> pn\<lparr>childrenPtrs := fst (detach a (childrenPtrs pn))\<rparr>)"
      by (simp add: s1_def)
    have "repr (heap s1) (parentPtr tn) (Sh a cs) = repr ?h (parentPtr tn) (Sh a cs)"
      by (rule repr_frame) (use pa h1 in auto)
    with rs have rs1: "repr (heap s1) (parentPtr tn) (Sh a cs)" by simp
    from release_wf[OF rs1 ds, of shw T False] c1 obtain ds err1 err2 where rel:
      "explore shw (showDebugMessages T) (heap s1) [Some a] [] (cerr s) = Some (Val (map Some ds, err1))"
      "mset ds = mset (nodes (Sh a cs))"
      "deleteLoop shw (showDebugMessages T) (map Some ds) (heap s1) err1
         = Val ((\<lambda>b. if b \<in> set (nodes (Sh a cs)) then None else heap s1 b), err2)"
      "release shw T a False s1
         = Some (Ok (T,
              s1\<lparr>heap := (\<lambda>b. if b \<in> set (nodes (Sh a cs)) then None else heap s1 b), cerr := err2\<rparr>))"
      by auto
    have "s1\<lparr>heap := (\<lambda>b. if b \<in> set (nodes (Sh a cs)) then None else heap s1 b), cerr := err2\<rparr>
          = s\<lparr>heap := (\<lambda>b. if b \<in> set (nodes (Sh a cs)) then None else heap s1 b), cerr := err2\<rparr>"
      by (simp add: s1_def)
    with r ra det rel(4) have del: "deleteSubtree shw (T, s) (Some a)
          = Some (Ok ((if rootNodePtr T = Some a then T\<lparr>rootNodePtr := None\<rparr> else T),
               s\<lparr>heap := (\<lambda>b. if b \<in> set (nodes (Sh a cs)) then None else heap s1 b), cerr := err2\<rparr>))"
      by (simp add: deleteSubtree_def)
    have "case parentPtr tn of None \<Rightarrow> s1 = s \<and> t = Sh a cs
        | Some p \<Rightarrow> p \<in> set (nodes t) \<and> p \<notin> set (nodes (Sh a cs)) \<and>
            (\<exists>pn pcs. heap s p = Some pn \<and> childrenPtrs pn = map ptr_of pcs \<and> Sh a cs \<in> set pcs
               \<and> distinct (concat (map nodes pcs))
               \<and> heap s1 = (heap s)(p \<mapsto> pn\<lparr>childrenPtrs := fst (detach a (childrenPtrs pn))\<rparr>))"
      using tn(2) pt pa pn mem dcs h1 by auto
    with tn rs ds ssub ra det c1 rel(1-3) del show ?thesis
      by (intro exI[of _ cs] exI[of _ tn] exI[of _ s1] exI[of _ ds] exI[of _ err1] exI[of _ err2])
         simp
  qed
qed

text \<open>The scenario of the specification, run: deleting \<open>B\<close> releases \<open>B\<close> and \<open>E\<close> and leaves a
  tombstone in the first slot of \<open>A\<close>.\<close>

lemma family_delete_B:
  "deleteSubtree (\<lambda>v. v) (family_tree, \<lparr>heap = family_heap, cerr = []\<rparr>) (Some 1)
   = Some (Ok (family_tree, \<lparr>heap = bereft_heap, cerr = []\<rparr>))"
  apply (simp add: deleteSubtree_def walkBack.simps detachFromParent_def release_def explore.simps
      family_heap_def family_tree_def)
  apply (rule ext)
  apply (simp add: bereft_heap_def)
  done

text \<open>
  C1. For a node \<open>a\<close> of a well-formed tree, \<^verbatim>\<open>deleteSubtree\<close> returns, and afterwards the
  allocated nodes are the former ones without those reachable from \<open>a\<close> along child pointers
  (\<open>a\<close> included). Every other node except the parent of \<open>a\<close> is the same object as before:
  value, parent and children sequence. The parent of \<open>a\<close> keeps its value and its parent, and
  its children sequence differs in one position only, the one slot that held \<open>a\<close>, which now
  holds the null pointer; no position is shifted.
\<close>

theorem deleteSubtree_removes_subtree:
  assumes "wf_tree (heap s) T t" and "a \<in> set (nodes t)"
  shows "\<exists>T' s' tn. deleteSubtree shw (T, s) (Some a) = Some (Ok (T', s'))
     \<and> heap s a = Some tn
     \<and> dom (heap s') = dom (heap s) - descendants (heap s) a
     \<and> (\<forall>b n. heap s b = Some n \<and> b \<notin> descendants (heap s) a \<and> parentPtr tn \<noteq> Some b
            \<longrightarrow> heap s' b = Some n)
     \<and> (\<forall>p pn. parentPtr tn = Some p \<and> heap s p = Some pn \<longrightarrow>
            (\<exists>i < length (childrenPtrs pn). childrenPtrs pn ! i = Some a
               \<and> (\<forall>j < length (childrenPtrs pn). childrenPtrs pn ! j = Some a \<longrightarrow> j = i)
               \<and> heap s' p = Some (pn\<lparr>childrenPtrs := (childrenPtrs pn)[i := None]\<rparr>)))"
proof -
  from deleteSubtree_wf[OF assms, of shw] obtain cs tn s1 ds err1 err2 where
    tn: "heap s a = Some tn"
    and rs: "repr (heap s) (parentPtr tn) (Sh a cs)"
    and par: "case parentPtr tn of
          None \<Rightarrow> s1 = s \<and> t = Sh a cs
        | Some p \<Rightarrow> p \<in> set (nodes t) \<and> p \<notin> set (nodes (Sh a cs)) \<and>
            (\<exists>pn pcs. heap s p = Some pn \<and> childrenPtrs pn = map ptr_of pcs \<and> Sh a cs \<in> set pcs
               \<and> distinct (concat (map nodes pcs))
               \<and> heap s1 = (heap s)(p \<mapsto> pn\<lparr>childrenPtrs := fst (detach a (childrenPtrs pn))\<rparr>))"
    and del: "deleteSubtree shw (T, s) (Some a)
          = Some (Ok ((if rootNodePtr T = Some a then T\<lparr>rootNodePtr := None\<rparr> else T),
               s\<lparr>heap := (\<lambda>b. if b \<in> set (nodes (Sh a cs)) then None else heap s1 b),
                  cerr := err2\<rparr>))"
    by blast
  let ?D = "set (nodes (Sh a cs))"
  let ?s' = "s\<lparr>heap := (\<lambda>b. if b \<in> ?D then None else heap s1 b), cerr := err2\<rparr>"
  have desc: "descendants (heap s) a = ?D" using rs by (rule descendants_repr)
  have alloc: "?D \<subseteq> dom (heap s)" using rs by (rule repr_allocated)
  have dom1: "dom (heap s1) = dom (heap s)"
    using par by (cases "parentPtr tn") (auto split: if_splits)
  have "dom (heap ?s') = dom (heap s1) - ?D"
    by (auto split: if_splits)
  with dom1 desc have d: "dom (heap ?s') = dom (heap s) - descendants (heap s) a" by simp
  have others: "heap ?s' b = Some n"
    if "heap s b = Some n" "b \<notin> descendants (heap s) a" "parentPtr tn \<noteq> Some b" for b n
  proof -
    have "heap s1 b = heap s b" using par that(3) by (cases "parentPtr tn") auto
    with that desc show ?thesis by simp
  qed
  have parent: "\<exists>i < length (childrenPtrs pn). childrenPtrs pn ! i = Some a
               \<and> (\<forall>j < length (childrenPtrs pn). childrenPtrs pn ! j = Some a \<longrightarrow> j = i)
               \<and> heap ?s' p = Some (pn\<lparr>childrenPtrs := (childrenPtrs pn)[i := None]\<rparr>)"
    if "parentPtr tn = Some p" "heap s p = Some pn" for p pn
  proof -
    from par that obtain pcs where pout: "p \<notin> ?D" and cp: "childrenPtrs pn = map ptr_of pcs"
      and mem: "Sh a cs \<in> set pcs" and dcs: "distinct (concat (map nodes pcs))"
      and h1: "heap s1 = (heap s)(p \<mapsto> pn\<lparr>childrenPtrs := fst (detach a (childrenPtrs pn))\<rparr>)"
      by auto
    from mem cp have "Some a \<in> set (childrenPtrs pn)" by force
    from detach_first[OF this] obtain i where i: "i < length (childrenPtrs pn)"
      "childrenPtrs pn ! i = Some a" "detach a (childrenPtrs pn) = ((childrenPtrs pn)[i := None], True)"
      by blast
    have uniq: "j = i" if "j < length (childrenPtrs pn)" "childrenPtrs pn ! j = Some a" for j
      using slot_unique[OF dcs, of j i a] that i(1,2) cp by simp
    from h1 i(3) pout have "heap ?s' p = Some (pn\<lparr>childrenPtrs := (childrenPtrs pn)[i := None]\<rparr>)"
      by simp
    with i(1,2) uniq show ?thesis by blast
  qed
  from del tn d others parent show ?thesis by blast
qed

theorem deleteSubtree_removes_subtree_witness:
  "wf_tree family_heap family_tree family_shape \<and> 1 \<in> set (nodes family_shape)
   \<and> (\<exists>T' s'. deleteSubtree (\<lambda>v. v) (family_tree, \<lparr>heap = family_heap, cerr = []\<rparr>) (Some 1)
                 = Some (Ok (T', s'))
          \<and> dom (heap s') = dom family_heap - descendants family_heap 1)"
proof -
  have 1: "wf_tree (heap \<lparr>heap = family_heap, cerr = []\<rparr>) family_tree family_shape"
    by (simp add: wf_tree_def family_heap_def family_tree_def family_shape_def)
  have 2: "1 \<in> set (nodes family_shape)"
    by (simp add: family_shape_def)
  from deleteSubtree_removes_subtree[OF 1 2, of "\<lambda>v. v"] obtain T' s' where
    "deleteSubtree (\<lambda>v. v) (family_tree, \<lparr>heap = family_heap, cerr = []\<rparr>) (Some 1)
       = Some (Ok (T', s'))"
    "dom (heap s') = dom family_heap - descendants family_heap 1"
    by auto
  with 1 2 show ?thesis by auto
qed

text \<open>
  C5. For a node \<open>a\<close> of a well-formed tree, \<^verbatim>\<open>deleteSubtree\<close> returns. If \<open>a\<close> is the root, the
  root pointer is null afterwards (\<^verbatim>\<open>getRootPtr\<close> returns it). If \<open>a\<close> is not the root, the root
  pointer is the same address as before, and the node at that address is still allocated,
  with the same value and still without a parent.
\<close>

theorem deleteSubtree_root_or_not:
  assumes "wf_tree (heap s) T t" and "a \<in> set (nodes t)"
  shows "\<exists>T' s'. deleteSubtree shw (T, s) (Some a) = Some (Ok (T', s'))
     \<and> (getRootPtr T = Some a \<longrightarrow> getRootPtr T' = None)
     \<and> (getRootPtr T \<noteq> Some a \<longrightarrow>
          getRootPtr T' = getRootPtr T
          \<and> (\<exists>r n n'. getRootPtr T = Some r \<and> heap s r = Some n \<and> heap s' r = Some n'
                \<and> data n' = data n \<and> parentPtr n' = None))"
proof -
  from deleteSubtree_wf[OF assms, of shw]
  obtain cs tn s1 and ds :: "nat list" and err1 err2 :: string where
    tn: "heap s a = Some tn"
    and rs: "repr (heap s) (parentPtr tn) (Sh a cs)"
    and ra: "rootNodePtr T = Some a \<longleftrightarrow> parentPtr tn = None"
    and par: "case parentPtr tn of
          None \<Rightarrow> s1 = s \<and> t = Sh a cs
        | Some p \<Rightarrow> p \<in> set (nodes t) \<and> p \<notin> set (nodes (Sh a cs)) \<and>
            (\<exists>pn pcs. heap s p = Some pn \<and> childrenPtrs pn = map ptr_of pcs \<and> Sh a cs \<in> set pcs
               \<and> distinct (concat (map nodes pcs))
               \<and> heap s1 = (heap s)(p \<mapsto> pn\<lparr>childrenPtrs := fst (detach a (childrenPtrs pn))\<rparr>))"
    and del: "deleteSubtree shw (T, s) (Some a)
          = Some (Ok ((if rootNodePtr T = Some a then T\<lparr>rootNodePtr := None\<rparr> else T),
               s\<lparr>heap := (\<lambda>b. if b \<in> set (nodes (Sh a cs)) then None else heap s1 b),
                  cerr := err2\<rparr>))"
    by (elim exE conjE) (rule that)
  let ?T' = "if rootNodePtr T = Some a then T\<lparr>rootNodePtr := None\<rparr> else T"
  let ?s' = "s\<lparr>heap := (\<lambda>b. if b \<in> set (nodes (Sh a cs)) then None else heap s1 b), cerr := err2\<rparr>"
  have "\<exists>r n n'. rootNodePtr T = Some r \<and> heap s r = Some n \<and> heap ?s' r = Some n'
                \<and> data n' = data n \<and> parentPtr n' = None"
    if nr: "rootNodePtr T \<noteq> Some a"
  proof -
    from nr ra obtain p where p: "parentPtr tn = Some p" by auto
    from assms have rt: "repr (heap s) None t" and pt: "ptr_of t = rootNodePtr T"
      by (simp_all add: wf_tree_def)
    from assms(2) obtain r ts where t: "t = Sh r ts" by (cases t) auto
    with rt obtain n where n: "heap s r = Some n" "parentPtr n = None"
      by (auto split: option.splits)
    from t pt have r: "rootNodePtr T = Some r" by simp
    have out: "r \<notin> set (nodes (Sh a cs))"
    proof
      assume "r \<in> set (nodes (Sh a cs))"
      with rs p repr_has_parent[of "heap s" p "Sh a cs" r] n show False by auto
    qed
    from par p obtain pn where pn: "heap s p = Some pn"
      and h1: "heap s1 = (heap s)(p \<mapsto> pn\<lparr>childrenPtrs := fst (detach a (childrenPtrs pn))\<rparr>)"
      by auto
    have "\<exists>n'. heap s1 r = Some n' \<and> data n' = data n \<and> parentPtr n' = None"
      using h1 pn n by (cases "r = p") auto
    with out r n(1) show ?thesis by auto
  qed
  with del show ?thesis
    by (intro exI[of _ ?T'] exI[of _ ?s']) (simp add: getRootPtr_def)
qed

theorem deleteSubtree_root_or_not_witness:
  "wf_tree family_heap family_tree family_shape \<and> 0 \<in> set (nodes family_shape)
   \<and> getRootPtr family_tree = Some 0
   \<and> (\<exists>T' s'. deleteSubtree (\<lambda>v. v) (family_tree, \<lparr>heap = family_heap, cerr = []\<rparr>) (Some 0)
                 = Some (Ok (T', s'))
          \<and> getRootPtr T' = None)"
proof -
  have 1: "wf_tree (heap \<lparr>heap = family_heap, cerr = []\<rparr>) family_tree family_shape"
    by (simp add: wf_tree_def family_heap_def family_tree_def family_shape_def)
  have 2: "0 \<in> set (nodes family_shape)"
    by (simp add: family_shape_def)
  have 3: "getRootPtr family_tree = Some 0"
    by (simp add: family_tree_def getRootPtr_def)
  from deleteSubtree_root_or_not[OF 1 2, of "\<lambda>v. v"] 1 2 3 show ?thesis by auto
qed

text \<open>
  C3. \<^verbatim>\<open>clear\<close> (which is all the destructor does) on a well-formed tree with a root: the
  exploration loop runs on the store as it was before the call and returns a delete stack
  that holds every node of the tree exactly once, these being the nodes reachable from the
  root; only then the release loop runs, deletes each of them once without touching a freed
  node, and leaves the store without them; \<^verbatim>\<open>clear\<close> returns with the root pointer null.
\<close>

theorem clear_releases_once:
  assumes "wf_tree (heap s) T t" and "rootNodePtr T = Some r"
  shows "\<exists>ds err1 err2.
       explore shw (showDebugMessages T) (heap s) [Some r] [] (cerr s)
         = Some (Val (map Some ds, err1))
     \<and> distinct ds \<and> set ds = set (nodes t) \<and> set ds = descendants (heap s) r
     \<and> deleteLoop shw (showDebugMessages T) (map Some ds) (heap s) err1
         = Val ((\<lambda>b. if b \<in> set ds then None else heap s b), err2)
     \<and> clear shw (T, s)
         = Some (Ok (T\<lparr>rootNodePtr := None\<rparr>,
              s\<lparr>heap := (\<lambda>b. if b \<in> set ds then None else heap s b), cerr := err2\<rparr>))"
proof -
  from assms have pt: "ptr_of t = Some r" and dt: "distinct (nodes t)" and rt: "repr (heap s) None t"
    by (simp_all add: wf_tree_def)
  from pt obtain ts where t: "t = Sh r ts" by (cases t) auto
  then have rin: "r \<in> set (nodes t)" by simp
  from rt t obtain n where n: "heap s r = Some n" "parentPtr n = None"
    by (auto split: option.splits)
  from deleteSubtree_wf[OF assms(1) rin, of shw] n obtain cs s1 ds err1 err2 where
    par: "s1 = s \<and> t = Sh r cs"
    and ex: "explore shw (showDebugMessages T) (heap s1) [Some r] [] (cerr s)
          = Some (Val (map Some ds, err1))"
    and ms: "mset ds = mset (nodes (Sh r cs))"
    and dl: "deleteLoop shw (showDebugMessages T) (map Some ds) (heap s1) err1
          = Val ((\<lambda>b. if b \<in> set (nodes (Sh r cs)) then None else heap s1 b), err2)"
    and del: "deleteSubtree shw (T, s) (Some r)
          = Some (Ok ((if rootNodePtr T = Some r then T\<lparr>rootNodePtr := None\<rparr> else T),
               s\<lparr>heap := (\<lambda>b. if b \<in> set (nodes (Sh r cs)) then None else heap s1 b),
                  cerr := err2\<rparr>))"
    by auto
  from par have s1: "s1 = s" and tcs: "Sh r cs = t" by simp_all
  note ex = ex[unfolded s1] and dl = dl[unfolded s1] and del = del[unfolded s1]
  from ms tcs have sd: "set ds = set (nodes t)" by (auto dest: mset_eq_setD)
  from mset_eq_imp_distinct_iff[OF ms] dt tcs have dd: "distinct ds" by simp
  from rt t have "descendants (heap s) r = set (nodes t)" by (simp only: descendants_repr)
  with sd have de: "set ds = descendants (heap s) r" by simp
  from del assms(2) tcs s1 sd have "clear shw (T, s)
         = Some (Ok (T\<lparr>rootNodePtr := None\<rparr>,
              s\<lparr>heap := (\<lambda>b. if b \<in> set ds then None else heap s b), cerr := err2\<rparr>))"
    by (simp add: clear_def)
  moreover from dl s1 tcs sd have "deleteLoop shw (showDebugMessages T) (map Some ds) (heap s) err1
         = Val ((\<lambda>b. if b \<in> set ds then None else heap s b), err2)" by simp
  ultimately show ?thesis using ex dd sd de by blast
qed

theorem clear_releases_once_witness:
  "wf_tree family_heap family_tree family_shape \<and> rootNodePtr family_tree = Some 0
   \<and> (\<exists>ds err2. distinct ds \<and> set ds = {0, 1, 2, 3, 4}
          \<and> clear (\<lambda>v. v) (family_tree, \<lparr>heap = family_heap, cerr = []\<rparr>)
              = Some (Ok (family_tree\<lparr>rootNodePtr := None\<rparr>,
                   \<lparr>heap = (\<lambda>b. if b \<in> set ds then None else family_heap b), cerr = err2\<rparr>)))"
proof -
  let ?s = "\<lparr>heap = family_heap, cerr = []\<rparr>"
  have 1: "wf_tree (heap ?s) family_tree family_shape"
    by (simp add: wf_tree_def family_heap_def family_tree_def family_shape_def)
  have 2: "rootNodePtr family_tree = Some 0"
    by (simp add: family_tree_def)
  from clear_releases_once[OF 1 2, of "\<lambda>v. v"]
  obtain ds :: "nat list" and err1 err2 :: string where r:
    "distinct ds" "set ds = set (nodes family_shape)"
    "clear (\<lambda>v. v) (family_tree, ?s)
       = Some (Ok (family_tree\<lparr>rootNodePtr := None\<rparr>,
            ?s\<lparr>heap := (\<lambda>b. if b \<in> set ds then None else heap ?s b), cerr := err2\<rparr>))"
    by (elim exE conjE) (rule that)
  from r(2) have "set ds = {0, 1, 2, 3, 4}" by (auto simp: family_shape_def)
  moreover from r(3) have "clear (\<lambda>v. v) (family_tree, ?s)
       = Some (Ok (family_tree\<lparr>rootNodePtr := None\<rparr>,
            \<lparr>heap = (\<lambda>b. if b \<in> set ds then None else family_heap b), cerr = err2\<rparr>))"
    by (simp cong: if_cong)
  ultimately show ?thesis using 1 2 r(1) by auto
qed

section \<open>Compaction of a well-formed tree\<close>

text \<open>The inner loop keeps the non-null children, in order, for the node and for the queue.\<close>

lemma keepChildren_filter:
  "keepChildren cs acc q
   = (acc @ filter (\<lambda>c. c \<noteq> None) cs, q @ filter (\<lambda>c. c \<noteq> None) cs)"
  by (induction cs arbitrary: acc q) simp_all

lemma ptr_of_None: "ptr_of c \<noteq> None \<longleftrightarrow> c \<noteq> Tomb"
  by (cases c) simp_all

lemma filter_ptr_of:
  "filter (\<lambda>c. c \<noteq> None) (map ptr_of cs) = map ptr_of (filter (\<lambda>c. c \<noteq> Tomb) cs)"
  by (induction cs) (simp_all add: ptr_of_None del: not_None_eq)

lemma nodes_filter_Tomb:
  "concat (map nodes (filter (\<lambda>c. c \<noteq> Tomb) cs)) = concat (map nodes cs)"
  by (induction cs) auto

lemma size_list_filter: "size_list f (filter P xs) \<le> size_list f xs"
  by (induction xs) simp_all

text \<open>
  The loop on a queue of non-null shapes that the store holds, no address twice: it returns
  without throwing, and the store it returns is the given one with the nodes of the shapes
  swept.
\<close>

lemma compressLoop_forest:
  "(\<And>t. t \<in> set fs \<Longrightarrow> t \<noteq> Tomb \<and> (\<exists>par. repr h par t)) \<Longrightarrow>
   distinct (concat (map nodes fs)) \<Longrightarrow>
   compressLoop h (map ptr_of fs) = Some (Ok (sweep (set (concat (map nodes fs))) h))"
proof (induction "size_list size fs" arbitrary: fs h rule: less_induct)
  case less
  show ?case
  proof (cases fs)
    case Nil
    have "sweep {} h = h" by (simp add: sweep_def)
    with Nil show ?thesis by (subst compressLoop.simps) simp
  next
    case (Cons t fs')
    with less.prems(1)[of t] obtain a cs par where t: "t = Sh a cs" and rt: "repr h par (Sh a cs)"
      by (cases t) auto
    from rt obtain n where n: "h a = Some n" "childrenPtrs n = map ptr_of cs"
      and kids: "\<And>c. c \<in> set cs \<Longrightarrow> repr h (Some a) c"
      by (auto split: option.splits)
    let ?live = "filter (\<lambda>c. c \<noteq> Tomb) cs"
    let ?fs1 = "fs' @ ?live"
    let ?h1 = "h(a \<mapsto> n\<lparr>childrenPtrs := map ptr_of ?live\<rparr>)"
    from less.prems(2) Cons t have da: "a \<notin> set (concat (map nodes cs))"
      "a \<notin> set (concat (map nodes fs'))"
      and dis: "distinct (concat (map nodes cs) @ concat (map nodes fs'))"
      by auto
    have step: "compressLoop h (map ptr_of fs) = compressLoop ?h1 (map ptr_of ?fs1)"
      using Cons t n by (subst compressLoop.simps) (simp add: keepChildren_filter filter_ptr_of del: not_None_eq)
    have size: "size_list size ?fs1 < size_list size fs"
      using Cons t size_list_filter[of size "\<lambda>c. c \<noteq> Tomb" cs] by simp
    have pre1: "u \<noteq> Tomb \<and> (\<exists>par. repr ?h1 par u)" if u: "u \<in> set ?fs1" for u
    proof -
      from u less.prems(1)[of u] Cons have nt: "u \<noteq> Tomb" by auto
      from u less.prems(1)[of u] Cons kids obtain p where p: "repr h p u" by auto
      from u da have "a \<notin> set (nodes u)" by auto
      then have "repr ?h1 p u = repr h p u" by (intro repr_frame) auto
      with p nt show ?thesis by blast
    qed
    have nodes1: "concat (map nodes ?fs1) = concat (map nodes fs') @ concat (map nodes cs)"
      by (simp add: nodes_filter_Tomb)
    from dis have pre2: "distinct (concat (map nodes ?fs1))"
      unfolding nodes1 by auto
    from less.hyps[OF size pre1 pre2]
    have "compressLoop ?h1 (map ptr_of ?fs1) = Some (Ok (sweep (set (concat (map nodes ?fs1))) ?h1))"
      by blast
    moreover have "sweep (set (concat (map nodes ?fs1))) ?h1 = sweep (set (concat (map nodes fs))) h"
    proof
      fix b
      define S1 where "S1 = set (concat (map nodes ?fs1))"
      define S where "S = set (concat (map nodes fs))"
      have S: "S = insert a S1"
        unfolding S_def S1_def nodes1 using Cons t by auto
      have a1: "a \<notin> S1" using da unfolding S1_def nodes1 by simp
      have "sweep S1 ?h1 b = sweep S h b"
      proof (cases "b = a")
        case True
        with a1 n S show ?thesis by (simp add: sweep_def filter_ptr_of del: not_None_eq)
      next
        case False
        with S show ?thesis by (simp add: sweep_def)
      qed
      then show "sweep (set (concat (map nodes ?fs1))) ?h1 b = sweep (set (concat (map nodes fs))) h b"
        unfolding S_def S1_def .
    qed
    ultimately show ?thesis using step by simp
  qed
qed

lemma nodes_squeeze: "nodes (squeeze t) = nodes t"
proof (induction t)
  case Tomb
  show ?case by simp
next
  case (Sh a cs)
  have "map nodes (map squeeze (filter (\<lambda>c. c \<noteq> Tomb) cs)) = map nodes (filter (\<lambda>c. c \<noteq> Tomb) cs)"
    using Sh.IH by simp
  then show ?case by (simp add: nodes_filter_Tomb del: map_map)
qed

lemma ptr_of_squeeze: "ptr_of (squeeze t) = ptr_of t"
  by (cases t) simp_all

lemma repr_sweep:
  "repr h par t \<Longrightarrow> set (nodes t) \<subseteq> S \<Longrightarrow> repr (sweep S h) par (squeeze t)"
proof (induction t arbitrary: par)
  case Tomb
  show ?case by simp
next
  case (Sh a cs)
  from Sh.prems(1) obtain n where n: "h a = Some n" "parentPtr n = par" "childrenPtrs n = map ptr_of cs"
    and kids: "\<And>c. c \<in> set cs \<Longrightarrow> repr h (Some a) c"
    by (auto split: option.splits)
  from Sh.prems(2) have a: "a \<in> S" by simp
  have "repr (sweep S h) (Some a) (squeeze c)" if "c \<in> set cs" for c
    using Sh.IH[OF that kids[OF that]] Sh.prems(2) that by auto
  moreover have "sweep S h a = Some (n\<lparr>childrenPtrs := map ptr_of (filter (\<lambda>c. c \<noteq> Tomb) cs)\<rparr>)"
    using a n by (simp add: sweep_def filter_ptr_of del: not_None_eq)
  ultimately show ?case using n(2) by (simp add: ptr_of_squeeze cong: map_cong)
qed

text \<open>\<^verbatim>\<open>compress\<close> on a well-formed tree returns the swept store, which holds the tree without
  its tombstones.\<close>

lemma compress_wf:
  assumes "wf_tree h T t"
  shows "compress T h = Some (Ok (sweep (set (nodes t)) h))"
    and "wf_tree (sweep (set (nodes t)) h) T (squeeze t)"
proof -
  from assms have pt: "ptr_of t = rootNodePtr T" and rt: "repr h None t" and dt: "distinct (nodes t)"
    by (simp_all add: wf_tree_def)
  show "compress T h = Some (Ok (sweep (set (nodes t)) h))"
  proof (cases t)
    case Tomb
    have "sweep {} h = h" by (simp add: sweep_def)
    with Tomb pt[symmetric] show ?thesis by (simp add: compress_def)
  next
    case (Sh r cs)
    have "compressLoop h (map ptr_of [t]) = Some (Ok (sweep (set (concat (map nodes [t]))) h))"
      using rt dt Sh by (intro compressLoop_forest) auto
    with Sh pt[symmetric] show ?thesis by (simp add: compress_def)
  qed
  from repr_sweep[OF rt subset_refl] pt dt
  show "wf_tree (sweep (set (nodes t)) h) T (squeeze t)"
    by (simp add: wf_tree_def nodes_squeeze ptr_of_squeeze)
qed

lemma sweep_idem: "sweep S (sweep S h) = sweep S h"
  by (rule ext) (simp add: sweep_def option.map_comp comp_def cong: option.map_cong)

text \<open>The scenario of the specification, continued: after compaction \<open>A\<close> has the children
  \<open>C\<close>, \<open>D\<close>.\<close>

lemma bereft_compress:
  "compress family_tree bereft_heap
   = Some (Ok (bereft_heap(0 \<mapsto> \<lparr>parentPtr = None, childrenPtrs = [Some 2, Some 3], data = ''A''\<rparr>)))"
  apply (simp add: compress_def compressLoop.simps family_tree_def bereft_heap_def)
  apply (rule ext)
  apply simp
  done

text \<open>And its diagram: \<open>C\<close> and \<open>D\<close> one level below \<open>A\<close>, in this order.\<close>

lemma family_render:
  "Print (\<lambda>v. v) family_tree
     (bereft_heap(0 \<mapsto> \<lparr>parentPtr = None, childrenPtrs = [Some 2, Some 3], data = ''A''\<rparr>)) [] []
   = Some (Val (''A'' @ endl @ ''|'' @ endl @ ''|_ C'' @ endl @ ''|'' @ endl @ ''|_ D'' @ endl, []))"
  by (simp add: Print_def printLoop.simps family_tree_def bereft_heap_def marginRows_def
      LAST_ROW_def)

text \<open>
  C4. \<^verbatim>\<open>compress\<close> on a well-formed tree returns. The same addresses are allocated afterwards.
  Each node of the tree keeps its value and its parent, and its children sequence is the old
  one with the null entries filtered out, so the surviving children keep their order and
  their parent, and no node of the tree has a null entry left. Nodes outside the tree are
  untouched. The tree is well-formed again, with the same nodes.
\<close>

theorem compress_removes_tombstones:
  assumes "wf_tree h T t"
  shows "\<exists>h'. compress T h = Some (Ok h')
     \<and> dom h' = dom h
     \<and> (\<forall>b n. b \<in> set (nodes t) \<and> h b = Some n \<longrightarrow>
           h' b = Some (n\<lparr>childrenPtrs := filter (\<lambda>c. c \<noteq> None) (childrenPtrs n)\<rparr>))
     \<and> (\<forall>b. b \<notin> set (nodes t) \<longrightarrow> h' b = h b)
     \<and> (\<forall>b n'. b \<in> set (nodes t) \<and> h' b = Some n' \<longrightarrow> None \<notin> set (childrenPtrs n'))
     \<and> wf_tree h' T (squeeze t) \<and> nodes (squeeze t) = nodes t"
proof -
  let ?h' = "sweep (set (nodes t)) h"
  have "dom ?h' = dom h"
    by (auto simp: sweep_def split: if_splits)
  moreover have "\<forall>b n. b \<in> set (nodes t) \<and> h b = Some n \<longrightarrow>
           ?h' b = Some (n\<lparr>childrenPtrs := filter (\<lambda>c. c \<noteq> None) (childrenPtrs n)\<rparr>)"
    by (simp add: sweep_def)
  moreover have "\<forall>b. b \<notin> set (nodes t) \<longrightarrow> ?h' b = h b"
    by (simp add: sweep_def)
  moreover have "\<forall>b n'. b \<in> set (nodes t) \<and> ?h' b = Some n' \<longrightarrow> None \<notin> set (childrenPtrs n')"
    by (auto simp: sweep_def)
  ultimately show ?thesis
    using compress_wf[OF assms] nodes_squeeze[of t] by blast
qed

theorem compress_removes_tombstones_witness:
  "wf_tree bereft_heap family_tree bereft_shape
   \<and> (\<exists>h'. compress family_tree bereft_heap = Some (Ok h')
         \<and> h' 0 = Some \<lparr>parentPtr = None, childrenPtrs = [Some 2, Some 3], data = ''A''\<rparr>
         \<and> h' 5 = bereft_heap 5)"
proof -
  have 1: "wf_tree bereft_heap family_tree bereft_shape"
    by (simp add: wf_tree_def bereft_heap_def family_tree_def bereft_shape_def)
  from compress_removes_tombstones[OF 1] obtain h' where h':
    "compress family_tree bereft_heap = Some (Ok h')"
    "\<forall>b n. b \<in> set (nodes bereft_shape) \<and> bereft_heap b = Some n \<longrightarrow>
           h' b = Some (n\<lparr>childrenPtrs := filter (\<lambda>c. c \<noteq> None) (childrenPtrs n)\<rparr>)"
    "\<forall>b. b \<notin> set (nodes bereft_shape) \<longrightarrow> h' b = bereft_heap b"
    by blast
  have "0 \<in> set (nodes bereft_shape)" "5 \<notin> set (nodes bereft_shape)"
    by (simp_all add: bereft_shape_def)
  moreover have "bereft_heap 0
      = Some \<lparr>parentPtr = None, childrenPtrs = [None, Some 2, Some 3], data = ''A''\<rparr>"
    by (simp add: bereft_heap_def)
  ultimately have "h' 0 = Some \<lparr>parentPtr = None, childrenPtrs = [Some 2, Some 3], data = ''A''\<rparr>"
    "h' 5 = bereft_heap 5"
    using h'(2,3) by auto
  with 1 h'(1) show ?thesis by blast
qed

text \<open>
  C8. On a well-formed tree, \<^verbatim>\<open>compress\<close> returns a store on which a second \<^verbatim>\<open>compress\<close> returns
  that very store: the second call changes nothing.
\<close>

theorem compress_idempotent:
  assumes "wf_tree h T t"
  shows "\<exists>h'. compress T h = Some (Ok h') \<and> compress T h' = Some (Ok h')"
proof -
  let ?h' = "sweep (set (nodes t)) h"
  from compress_wf[OF assms] have 1: "compress T h = Some (Ok ?h')"
    and wf': "wf_tree ?h' T (squeeze t)" by simp_all
  from compress_wf(1)[OF wf'] have "compress T ?h' = Some (Ok ?h')"
    by (simp add: nodes_squeeze sweep_idem)
  with 1 show ?thesis by blast
qed

theorem compress_idempotent_witness:
  "wf_tree bereft_heap family_tree bereft_shape
   \<and> (\<exists>h'. compress family_tree bereft_heap = Some (Ok h') \<and> compress family_tree h' = Some (Ok h'))"
proof -
  have 1: "wf_tree bereft_heap family_tree bereft_shape"
    by (simp add: wf_tree_def bereft_heap_def family_tree_def bereft_shape_def)
  from compress_idempotent[OF 1] 1 show ?thesis by blast
qed

section \<open>The operations keep the tree well-formed\<close>

text \<open>Construction and \<^verbatim>\<open>createRoot\<close>.\<close>

lemma ptr_of_Tomb: "ptr_of t = None \<longleftrightarrow> t = Tomb"
  by (cases t) simp_all

lemma tidy_construct: "tidy (GenericTree_new, \<lparr>heap = Map.empty, cerr = e\<rparr>) Tomb"
  by (simp add: tidy_def wf_tree_def GenericTree_new_def)

lemma tidy_createRoot:
  assumes "tidy w t" and "createRoot v fresh w = Ok w'"
  shows "tidy w' (Sh fresh [])"
proof -
  obtain T s where w: "w = (T, s)" by (cases w)
  from assms(2) w have root: "rootNodePtr T = None"
    and w': "w' = (T\<lparr>rootNodePtr := Some fresh\<rparr>, s\<lparr>heap := (heap s)(fresh \<mapsto> TreeNode_new v)\<rparr>)"
    by (auto simp: createRoot_def split: if_splits)
  from assms(1) w root have "t = Tomb" by (simp add: tidy_def wf_tree_def ptr_of_Tomb)
  with assms(1) w have "dom (heap s) = {}" by (simp add: tidy_def)
  with w' show ?thesis by (simp add: tidy_def wf_tree_def TreeNode_new_def)
qed

lemma tidy_createRoot_throws:
  assumes "tidy w t" and "createRoot v fresh w = Throw m w'"
  shows "tidy w' t"
proof -
  obtain T s where w: "w = (T, s)" by (cases w)
  from assms(2) w have "w' = (T, s\<lparr>cerr := cerr s @ AlreadyInitializedError @ endl\<rparr>)"
    by (auto simp: createRoot_def split: if_splits)
  with assms(1) w show ?thesis by (simp add: tidy_def)
qed

text \<open>\<^verbatim>\<open>addChild\<close> on an allocated node grafts the new node into the shape.\<close>

lemma replicate_mset_add: "replicate_mset (m + n) x = replicate_mset m x + replicate_mset n x"
  by (induction m) simp_all

lemma ptr_of_graft: "ptr_of (graft p f t) = ptr_of t"
  by (cases t) simp_all

lemma mset_nodes_graft:
  "mset (nodes (graft p f t)) = mset (nodes t) + replicate_mset (count (mset (nodes t)) p) f"
proof (induction t)
  case Tomb
  show ?case by simp
next
  case (Sh b cs)
  have kids: "mset (concat (map nodes (map (graft p f) cs)))
        = mset (concat (map nodes cs)) + replicate_mset (count (mset (concat (map nodes cs))) p) f"
    using Sh.IH
  proof (induction cs)
    case Nil
    show ?case by simp
  next
    case (Cons c cs)
    then show ?case by (simp add: replicate_mset_add)
  qed
  show ?case using kids by (simp add: replicate_mset_add)
qed

lemma nodes_graft:
  assumes "distinct (nodes t)" and "f \<notin> set (nodes t)" and "p \<in> set (nodes t)"
  shows "distinct (nodes (graft p f t))" and "set (nodes (graft p f t)) = insert f (set (nodes t))"
proof -
  from assms(1,3) have "count (mset (nodes t)) p = 1"
    by (simp add: distinct_count_atmost_1)
  then have m: "mset (nodes (graft p f t)) = mset (f # nodes t)"
    by (simp add: mset_nodes_graft)
  from mset_eq_imp_distinct_iff[OF m] assms(1,2) show "distinct (nodes (graft p f t))" by simp
  from mset_eq_setD[OF m] show "set (nodes (graft p f t)) = insert f (set (nodes t))" by simp
qed

lemma repr_graft:
  assumes "repr h par t" and "f \<notin> set (nodes t)"
    and hp: "h p = Some n" "h' p = Some (n\<lparr>childrenPtrs := childrenPtrs n @ [Some f]\<rparr>)"
    and hf: "h' f = Some N" "parentPtr N = Some p" "childrenPtrs N = []"
    and ho: "\<And>b. b \<noteq> p \<Longrightarrow> b \<noteq> f \<Longrightarrow> h' b = h b"
  shows "repr h' par (graft p f t)"
  using assms(1,2)
proof (induction t arbitrary: par)
  case Tomb
  show ?case by simp
next
  case (Sh b cs)
  from Sh.prems(1) obtain m where m: "h b = Some m" "parentPtr m = par" "childrenPtrs m = map ptr_of cs"
    and kids: "\<And>c. c \<in> set cs \<Longrightarrow> repr h (Some b) c"
    by (auto split: option.splits)
  from Sh.prems(2) have bf: "b \<noteq> f" by auto
  have kids': "repr h' (Some b) (graft p f c)" if "c \<in> set cs" for c
  proof -
    from Sh.prems(2) that have "f \<notin> set (nodes c)" by auto
    from Sh.IH[OF that kids[OF that] this] show ?thesis .
  qed
  have pg: "map (ptr_of \<circ> graft p f) cs = map ptr_of cs"
    by (simp add: ptr_of_graft)
  show ?case
  proof (cases "b = p")
    case True
    with m hp(1) have "m = n" by simp
    with True m kids' hp(2) hf pg show ?thesis by simp
  next
    case False
    with ho[OF False bf] m kids' pg show ?thesis by simp
  qed
qed

lemma tidy_addChild:
  assumes "tidy (T, s) t" and "fresh \<notin> dom (heap s)" and "addChild this v fresh (heap s) = Val h'"
  shows "tidy (T, s\<lparr>heap := h'\<rparr>) (graft this fresh t)"
proof -
  from assms(1) have pt: "ptr_of t = rootNodePtr T" and rt: "repr (heap s) None t"
    and dt: "distinct (nodes t)" and dom: "dom (heap s) = set (nodes t)"
    by (simp_all add: tidy_def wf_tree_def)
  from assms(3) obtain n where n: "heap s this = Some n"
    and h': "h' = (heap s)(fresh \<mapsto> (TreeNode_new v)\<lparr>parentPtr := Some this\<rparr>,
                     this \<mapsto> n\<lparr>childrenPtrs := childrenPtrs n @ [Some fresh]\<rparr>)"
    by (auto simp: addChild_def split: option.splits)
  from n dom have this_in: "this \<in> set (nodes t)" by auto
  from assms(2) dom have fresh_out: "fresh \<notin> set (nodes t)" by simp
  from this_in fresh_out have ne: "fresh \<noteq> this" by auto
  have "repr h' None (graft this fresh t)"
    by (rule repr_graft[OF rt fresh_out n, where N = "(TreeNode_new v)\<lparr>parentPtr := Some this\<rparr>"])
       (use ne in \<open>simp_all add: h' TreeNode_new_def\<close>)
  moreover note nodes_graft[OF dt fresh_out this_in]
  moreover have "dom h' = insert fresh (dom (heap s))"
    unfolding h' using n by auto
  ultimately show ?thesis using pt dom by (simp add: tidy_def wf_tree_def ptr_of_graft)
qed

text \<open>\<^verbatim>\<open>deleteSubtree\<close> on a node of the tree prunes the shape; on the null pointer it does
  nothing; on any other pointer it reads a node that is not allocated.\<close>

lemma ptr_of_in_nodes: "ptr_of c = Some a \<Longrightarrow> a \<in> set (nodes c)"
  by (cases c) auto

lemma detach_map:
  "distinct (concat (map nodes pcs)) \<Longrightarrow>
   fst (detach a (map ptr_of pcs)) = map (\<lambda>c. if c = Some a then None else c) (map ptr_of pcs)"
proof (induction pcs)
  case Nil
  show ?case by simp
next
  case (Cons c pcs)
  show ?case
  proof (cases "ptr_of c = Some a")
    case True
    then have "a \<in> set (nodes c)" by (rule ptr_of_in_nodes)
    with Cons.prems have "a \<notin> set (concat (map nodes pcs))" by auto
    then have "\<forall>d \<in> set pcs. ptr_of d \<noteq> Some a"
      using ptr_of_in_nodes by fastforce
    then have "map (\<lambda>c. if c = Some a then None else c) (map ptr_of pcs) = map ptr_of pcs"
      by (induction pcs) auto
    with True show ?thesis by simp
  next
    case False
    with Cons show ?thesis by (simp add: split_beta)
  qed
qed

lemma child_parent:
  "repr h par t \<Longrightarrow> b \<in> set (nodes t) \<Longrightarrow> h b = Some n \<Longrightarrow> Some a \<in> set (childrenPtrs n)
   \<Longrightarrow> \<exists>m. h a = Some m \<and> parentPtr m = Some b"
proof (induction t arbitrary: par)
  case Tomb
  then show ?case by simp
next
  case (Sh r cs)
  show ?case
  proof (cases "b = r")
    case True
    with Sh.prems obtain c where c: "c \<in> set cs" "ptr_of c = Some a" "repr h (Some b) c"
      by (auto split: option.splits)
    from c(2) obtain ds where "c = Sh a ds" by (cases c) auto
    with c(3) show ?thesis by (auto split: option.splits)
  next
    case False
    with Sh.prems(2) obtain d where d: "d \<in> set cs" "b \<in> set (nodes d)" by auto
    with Sh.prems(1) have "repr h (Some r) d" by (auto split: option.splits)
    from Sh.IH[OF d(1) this d(2) Sh.prems(3,4)] show ?thesis .
  qed
qed

lemma ptr_of_prune: "ptr_of (prune a t) = (if ptr_of t = Some a then None else ptr_of t)"
  by (cases t) simp_all

lemma mset_prune: "mset (nodes t) = mset (nodes (prune a t)) + mset (cut a t)"
proof (induction t)
  case Tomb
  show ?case by simp
next
  case (Sh b cs)
  have "mset (concat (map nodes cs))
        = mset (concat (map nodes (map (prune a) cs))) + mset (concat (map (cut a) cs))"
    using Sh.IH by (induction cs) simp_all
  then show ?case by simp
qed

lemma nodes_prune:
  assumes "distinct (nodes t)"
  shows "distinct (nodes (prune a t))" and "set (nodes (prune a t)) = set (nodes t) - set (cut a t)"
proof -
  have m: "mset (nodes t) = mset (nodes (prune a t) @ cut a t)"
    using mset_prune[of t a] by simp
  from mset_eq_imp_distinct_iff[OF m] assms have d: "distinct (nodes (prune a t) @ cut a t)" by simp
  then show "distinct (nodes (prune a t))" by simp
  from mset_eq_setD[OF m] d show "set (nodes (prune a t)) = set (nodes t) - set (cut a t)" by auto
qed

lemma cut_absent: "a \<notin> set (nodes t) \<Longrightarrow> cut a t = []"
  by (induction t) auto

lemma cut_descendants:
  "repr h par t \<Longrightarrow> a \<in> set (nodes t) \<Longrightarrow> set (cut a t) = descendants h a"
proof (induction t arbitrary: par)
  case Tomb
  then show ?case by simp
next
  case (Sh b cs)
  show ?case
  proof (cases "a = b")
    case True
    with Sh.prems(1) show ?thesis by (simp add: descendants_repr del: repr.simps)
  next
    case False
    with Sh.prems(2) obtain d where d: "d \<in> set cs" "a \<in> set (nodes d)" by auto
    have each: "set (cut a c) = (if a \<in> set (nodes c) then descendants h a else {})"
      if "c \<in> set cs" for c
    proof (cases "a \<in> set (nodes c)")
      case True
      from Sh.prems(1) that have "repr h (Some b) c" by (auto split: option.splits)
      from Sh.IH[OF that this True] True show ?thesis by simp
    next
      case False
      then show ?thesis by (simp add: cut_absent)
    qed
    have "set (concat (map (cut a) cs)) = (\<Union>c \<in> set cs. set (cut a c))" by simp
    also have "\<dots> = (\<Union>c \<in> set cs. if a \<in> set (nodes c) then descendants h a else {})"
      using each by simp
    also have "\<dots> = descendants h a" using d by auto
    finally show ?thesis using False by simp
  qed
qed

lemma repr_prune:
  assumes "repr h par t"
    and "\<And>b n. b \<in> set (nodes (prune a t)) \<Longrightarrow> h b = Some n \<Longrightarrow>
           h' b = Some (n\<lparr>childrenPtrs := map (\<lambda>c. if c = Some a then None else c) (childrenPtrs n)\<rparr>)"
  shows "repr h' par (prune a t)"
  using assms
proof (induction t arbitrary: par)
  case Tomb
  show ?case by simp
next
  case (Sh b cs)
  show ?case
  proof (cases "a = b")
    case True
    then show ?thesis by simp
  next
    case False
    from Sh.prems(1) obtain n where n: "h b = Some n" "parentPtr n = par" "childrenPtrs n = map ptr_of cs"
      and kids: "\<And>c. c \<in> set cs \<Longrightarrow> repr h (Some b) c"
      by (auto split: option.splits)
    from False have "b \<in> set (nodes (prune a (Sh b cs)))" by simp
    from Sh.prems(2)[OF this n(1)]
    have hb: "h' b = Some (n\<lparr>childrenPtrs := map (\<lambda>c. if c = Some a then None else c) (childrenPtrs n)\<rparr>)" .
    have kids': "repr h' (Some b) (prune a c)" if c: "c \<in> set cs" for c
    proof (rule Sh.IH[OF c kids[OF c]])
      fix x m assume "x \<in> set (nodes (prune a c))" "h x = Some m"
      moreover from this(1) c False have "x \<in> set (nodes (prune a (Sh b cs)))" by auto
      ultimately show "h' x = Some (m\<lparr>childrenPtrs := map (\<lambda>c. if c = Some a then None else c) (childrenPtrs m)\<rparr>)"
        using Sh.prems(2) by blast
    qed
    have "map (\<lambda>c. if c = Some a then None else c) (map ptr_of cs) = map ptr_of (map (prune a) cs)"
      by (simp add: ptr_of_prune)
    with False hb n kids' show ?thesis by simp
  qed
qed

lemma deleteSubtree_dangling:
  "heap s a = None \<Longrightarrow> deleteSubtree shw (T, s) (Some a) = Some UB"
  by (simp add: deleteSubtree_def walkBack.simps)

lemma tidy_deleteSubtree_node:
  assumes tidy: "tidy (T, s) t" and a: "a \<in> set (nodes t)"
  shows "\<exists>w'. deleteSubtree shw (T, s) (Some a) = Some (Ok w') \<and> tidy w' (prune a t)"
proof -
  let ?f = "\<lambda>c. if c = Some a then None else c"
  from tidy have wf: "wf_tree (heap s) T t" and dom: "dom (heap s) = set (nodes t)"
    by (simp_all add: tidy_def)
  from wf have pt: "ptr_of t = rootNodePtr T" and rt: "repr (heap s) None t"
    and dt: "distinct (nodes t)" by (simp_all add: wf_tree_def)
  from deleteSubtree_wf[OF wf a, of shw]
  obtain cs tn s1 and ds :: "nat list" and err1 err2 :: string where
    tn: "heap s a = Some tn"
    and rs: "repr (heap s) (parentPtr tn) (Sh a cs)"
    and par: "case parentPtr tn of
          None \<Rightarrow> s1 = s \<and> t = Sh a cs
        | Some p \<Rightarrow> p \<in> set (nodes t) \<and> p \<notin> set (nodes (Sh a cs)) \<and>
            (\<exists>pn pcs. heap s p = Some pn \<and> childrenPtrs pn = map ptr_of pcs \<and> Sh a cs \<in> set pcs
               \<and> distinct (concat (map nodes pcs))
               \<and> heap s1 = (heap s)(p \<mapsto> pn\<lparr>childrenPtrs := fst (detach a (childrenPtrs pn))\<rparr>))"
    and del: "deleteSubtree shw (T, s) (Some a)
          = Some (Ok ((if rootNodePtr T = Some a then T\<lparr>rootNodePtr := None\<rparr> else T),
               s\<lparr>heap := (\<lambda>b. if b \<in> set (nodes (Sh a cs)) then None else heap s1 b),
                  cerr := err2\<rparr>))"
    by (elim exE conjE) (rule that)
  let ?D = "set (nodes (Sh a cs))"
  let ?T' = "if rootNodePtr T = Some a then T\<lparr>rootNodePtr := None\<rparr> else T"
  let ?h' = "\<lambda>b. if b \<in> ?D then None else heap s1 b"
  let ?s' = "s\<lparr>heap := ?h', cerr := err2\<rparr>"
  have D: "?D = set (cut a t)"
    using descendants_repr[OF rs] cut_descendants[OF rt a] by simp
  note np = nodes_prune[OF dt, of a]
  have dom1: "dom (heap s1) = dom (heap s)"
    using par by (cases "parentPtr tn") (auto split: if_splits)
  have "dom ?h' = dom (heap s1) - ?D" by (auto split: if_splits)
  with dom1 dom D np(2) have dom': "dom ?h' = set (nodes (prune a t))" by simp
  have root': "ptr_of (prune a t) = rootNodePtr ?T'"
    using pt by (simp add: ptr_of_prune)
  have upd: "?h' b = Some (n\<lparr>childrenPtrs := map ?f (childrenPtrs n)\<rparr>)"
    if b: "b \<in> set (nodes (prune a t))" and n: "heap s b = Some n" for b n
  proof -
    from b np(2) D have bt: "b \<in> set (nodes t)" and bD: "b \<notin> ?D" by auto
    show ?thesis
    proof (cases "parentPtr tn")
      case None
      with par have "t = Sh a cs" by simp
      with b show ?thesis by simp
    next
      case (Some p)
      with par obtain pn pcs where pn: "heap s p = Some pn" "childrenPtrs pn = map ptr_of pcs"
        and dcs: "distinct (concat (map nodes pcs))"
        and h1: "heap s1 = (heap s)(p \<mapsto> pn\<lparr>childrenPtrs := fst (detach a (childrenPtrs pn))\<rparr>)"
        by auto
      show ?thesis
      proof (cases "b = p")
        case True
        with n pn have "n = pn" by simp
        moreover have "fst (detach a (childrenPtrs pn)) = map ?f (childrenPtrs pn)"
          unfolding pn(2) using dcs by (rule detach_map)
        ultimately show ?thesis using bD h1 True by simp
      next
        case False
        have "Some a \<notin> set (childrenPtrs n)"
        proof
          assume "Some a \<in> set (childrenPtrs n)"
          from child_parent[OF rt bt n this] tn Some False show False by simp
        qed
        then have "map ?f (childrenPtrs n) = childrenPtrs n"
          by (intro map_idI) auto
        with bD h1 False n show ?thesis by simp
      qed
    qed
  qed
  have "repr ?h' None (prune a t)"
    using rt upd by (rule repr_prune)
  with root' np(1) dom' have "tidy (?T', ?s') (prune a t)"
    by (simp add: tidy_def wf_tree_def)
  with del show ?thesis by blast
qed

lemma tidy_deleteSubtree:
  assumes "tidy w t" and "deleteSubtree shw w p = Some r"
  shows "r \<noteq> UB \<longrightarrow> (\<exists>w' t'. r = Ok w' \<and> tidy w' t')"
proof (cases p)
  case None
  with assms show ?thesis by (cases w) (auto simp: deleteSubtree_def)
next
  case (Some a)
  obtain T s where w: "w = (T, s)" by (cases w)
  show ?thesis
  proof (cases "a \<in> set (nodes t)")
    case True
    from tidy_deleteSubtree_node[OF assms(1)[unfolded w] True, of shw] assms(2) w Some
    show ?thesis by auto
  next
    case False
    with assms(1) w have "heap s a = None" by (auto simp: tidy_def)
    from deleteSubtree_dangling[OF this] assms(2) w Some show ?thesis by simp
  qed
qed

text \<open>\<^verbatim>\<open>compress\<close> squeezes the shape.\<close>

lemma tidy_compress:
  assumes "tidy (T, s) t"
  shows "compress T (heap s) = Some (Ok (sweep (set (nodes t)) (heap s)))"
    and "tidy (T, s\<lparr>heap := sweep (set (nodes t)) (heap s)\<rparr>) (squeeze t)"
proof -
  from assms have wf: "wf_tree (heap s) T t" and dom: "dom (heap s) = set (nodes t)"
    by (simp_all add: tidy_def)
  from compress_wf(1)[OF wf] show "compress T (heap s) = Some (Ok (sweep (set (nodes t)) (heap s)))" .
  have "dom (sweep (set (nodes t)) (heap s)) = dom (heap s)"
    by (auto simp: sweep_def split: if_splits)
  with compress_wf(2)[OF wf] dom
  show "tidy (T, s\<lparr>heap := sweep (set (nodes t)) (heap s)\<rparr>) (squeeze t)"
    by (simp add: tidy_def nodes_squeeze)
qed

text \<open>Every state of a program over one tree is tidy.\<close>

lemma built_tidy: "built shw w \<Longrightarrow> \<exists>t. tidy w t"
proof (induction rule: built.induct)
  case (construct e)
  show ?case using tidy_construct by blast
next
  case (set_debug T s flag)
  then show ?case by (auto simp: tidy_def wf_tree_def)
next
  case (create w fresh v w')
  from create.IH obtain t where "tidy w t" ..
  from tidy_createRoot[OF this create.hyps(3)] show ?case ..
next
  case (create_throws w fresh v m w')
  from create_throws.IH obtain t where "tidy w t" ..
  from tidy_createRoot_throws[OF this create_throws.hyps(3)] show ?case ..
next
  case (add T s fresh this v h')
  from add.IH obtain t where "tidy (T, s) t" ..
  from tidy_addChild[OF this add.hyps(2,3)] show ?case ..
next
  case (delete w p w')
  from delete.IH obtain t where "tidy w t" ..
  from tidy_deleteSubtree[OF this delete.hyps(2)] show ?case by auto
next
  case (delete_throws w p m w')
  from delete_throws.IH obtain t where "tidy w t" ..
  from tidy_deleteSubtree[OF this delete_throws.hyps(2)] show ?case by auto
next
  case (compact T s h')
  from compact.IH obtain t where "tidy (T, s) t" ..
  from tidy_compress[OF this] compact.hyps(2) show ?case by auto
next
  case (compact_throws T s m h')
  from compact_throws.IH obtain t where "tidy (T, s) t" ..
  from tidy_compress(1)[OF this] compact_throws.hyps(2) show ?case by simp
qed

text \<open>A state with a tombstone, reached by \<^verbatim>\<open>createRoot\<close>, \<^verbatim>\<open>addChild\<close> and \<^verbatim>\<open>deleteSubtree\<close>.\<close>

lemma stump_built: "built (\<lambda>v. v) (family_tree, \<lparr>heap = stump_heap, cerr = []\<rparr>)"
proof -
  let ?A = "\<lparr>parentPtr = None, childrenPtrs = [], data = ''A''\<rparr>"
  let ?A1 = "\<lparr>parentPtr = None, childrenPtrs = [Some 1], data = ''A''\<rparr>"
  let ?B = "\<lparr>parentPtr = Some 0, childrenPtrs = [], data = ''B''\<rparr>"
  have b0: "built (\<lambda>v. v) (GenericTree_new, \<lparr>heap = Map.empty, cerr = []\<rparr>)"
    by (rule built.construct)
  have b1: "built (\<lambda>v. v) (family_tree, \<lparr>heap = [0 \<mapsto> ?A], cerr = []\<rparr>)"
    by (rule built.create[OF b0, of 0 "''A''"])
       (simp_all add: createRoot_def GenericTree_new_def family_tree_def TreeNode_new_def)
  have "built (\<lambda>v. v) (family_tree, \<lparr>heap = [0 \<mapsto> ?A], cerr = []\<rparr>\<lparr>heap := [1 \<mapsto> ?B, 0 \<mapsto> ?A1]\<rparr>)"
    by (rule built.add[OF b1, of 1 0 "''B''"]) (simp_all add: addChild_def TreeNode_new_def)
  then have b2: "built (\<lambda>v. v) (family_tree, \<lparr>heap = [1 \<mapsto> ?B, 0 \<mapsto> ?A1], cerr = []\<rparr>)"
    by simp
  have "deleteSubtree (\<lambda>v. v) (family_tree, \<lparr>heap = [1 \<mapsto> ?B, 0 \<mapsto> ?A1], cerr = []\<rparr>) (Some 1)
        = Some (Ok (family_tree, \<lparr>heap = stump_heap, cerr = []\<rparr>))"
    apply (simp add: deleteSubtree_def walkBack.simps detachFromParent_def release_def explore.simps
        family_tree_def)
    apply (rule ext)
    apply (simp add: stump_heap_def)
    done
  with b2 show ?thesis by (rule built.delete)
qed

text \<open>
  C10. In every state that a program over one tree can reach with the constructor, the debug
  flag, \<^verbatim>\<open>createRoot\<close>, \<^verbatim>\<open>addChild\<close>, \<^verbatim>\<open>deleteSubtree\<close> and \<^verbatim>\<open>compress\<close>, a call of \<^verbatim>\<open>compress\<close>
  returns normally: the loop ends, no null pointer is dequeued, and nothing is thrown.
\<close>

theorem compress_never_throws:
  assumes "built shw (T, s)"
  shows "\<exists>h'. compress T (heap s) = Some (Ok h')"
proof -
  from built_tidy[OF assms] obtain t where "tidy (T, s) t" by blast
  from tidy_compress(1)[OF this] show ?thesis by blast
qed

theorem compress_never_throws_witness:
  "built (\<lambda>v. v) (family_tree, \<lparr>heap = stump_heap, cerr = []\<rparr>)
   \<and> (\<exists>h'. compress family_tree stump_heap = Some (Ok h'))"
  using compress_never_throws[OF stump_built] stump_built by simp

end
